theory Spec2Isabelle
  imports Complex_Main "HOL-Library.AList"
begin

section \<open>Double Q-Learning: a shallow embedding of \<^verbatim>\<open>Algorithms/double_q_learning.py\<close>\<close>

text \<open>
  Modelling decisions.
  \<^item> Action values are \<^typ>\<open>real\<close> numbers; a one-dimensional numpy array is a
    \<^typ>\<open>real list\<close>.
  \<^item> A Python \<^verbatim>\<open>dict\<close> is an association list in insertion order: assigning to an
    existing key keeps its position, a new key goes to the end
    (\<^const>\<open>AList.update\<close>), lookup is \<^const>\<open>map_of\<close>.
  \<^item> Every exception the code can raise is a value of \<open>error\<close>; a computation
    returns \<open>error + 'a\<close> with \<open>Inl\<close> for the exception.
  \<^item> The global generator \<^verbatim>\<open>np.random\<close> is an explicit state \<open>'g\<close> with the two
    draws the code makes; the environment is an explicit state \<open>'e\<close> with
    \<^verbatim>\<open>reset\<close> and \<^verbatim>\<open>step\<close>.
  \<^item> The policy object and the training function share the two tables (lines 68 to
    76 make \<^verbatim>\<open>Q_a\<close> and \<^verbatim>\<open>policy.Q_a\<close> one object), so the tables live in the
    policy record only. The two tables are taken to be distinct objects whose rows
    are not shared.
  \<^item> \<^verbatim>\<open>while True\<close> may run forever: the loop is a \<^theory_text>\<open>partial_function\<close> into
    \<open>option\<close>, and \<open>None\<close> is "does not return".
\<close>

subsection \<open>Exceptions\<close>

datatype error = KeyError | ValueError | IndexError | AttributeError

fun bind_err :: "error + 'a \<Rightarrow> ('a \<Rightarrow> error + 'b) \<Rightarrow> error + 'b" where
  "bind_err (Inl e) f = Inl e"
| "bind_err (Inr x) f = f x"

subsection \<open>Dictionaries and arrays\<close>

type_synonym 's table = "('s \<times> real list) list"

text \<open>\<^verbatim>\<open>d.keys()\<close>\<close>

definition keys :: "'s table \<Rightarrow> 's list" where
  "keys d = map fst d"

text \<open>\<^verbatim>\<open>d[k]\<close> as an expression: \<^verbatim>\<open>KeyError\<close> when the key is missing.\<close>

definition getitem :: "'s table \<Rightarrow> 's \<Rightarrow> error + real list" where
  "getitem d k = (case map_of d k of None \<Rightarrow> Inl KeyError | Some v \<Rightarrow> Inr v)"

text \<open>\<^verbatim>\<open>d[k] = v\<close>\<close>

definition setitem :: "'s table \<Rightarrow> 's \<Rightarrow> real list \<Rightarrow> 's table" where
  "setitem d k v = AList.update k v d"

text \<open>\<^verbatim>\<open>d.setdefault(k, v)\<close>: the stored row when the key is present, otherwise \<open>v\<close>,
  which is then stored. The result is the row and the dictionary afterwards.\<close>

definition setdefault :: "'s table \<Rightarrow> 's \<Rightarrow> real list \<Rightarrow> real list \<times> 's table" where
  "setdefault d k v = (case map_of d k of None \<Rightarrow> (v, setitem d k v) | Some r \<Rightarrow> (r, d))"

text \<open>\<^verbatim>\<open>np.zeros(n)\<close>\<close>

definition np_zeros :: "nat \<Rightarrow> real list" where
  "np_zeros n = replicate n 0"

text \<open>\<^verbatim>\<open>a[i]\<close> for an index that is not negative: \<^verbatim>\<open>IndexError\<close> out of range.\<close>

definition index :: "real list \<Rightarrow> nat \<Rightarrow> error + real" where
  "index a i = (if i < length a then Inr (a ! i) else Inl IndexError)"

text \<open>\<^verbatim>\<open>a + b\<close> on one-dimensional arrays, with numpy's broadcasting: equal lengths
  add element by element, a length-one array is stretched, anything else is a
  \<^verbatim>\<open>ValueError\<close>.\<close>

definition np_add :: "real list \<Rightarrow> real list \<Rightarrow> error + real list" where
  "np_add a b =
     (if length a = length b then Inr (map2 (+) a b)
      else if length a = 1 then Inr (map (\<lambda>y. hd a + y) b)
      else if length b = 1 then Inr (map (\<lambda>x. x + hd b) a)
      else Inl ValueError)"

text \<open>\<^verbatim>\<open>np.argmax(a)\<close>: a left-to-right scan that keeps the first index of the largest
  value seen; \<^verbatim>\<open>ValueError\<close> on an empty array.\<close>

fun argmax_scan :: "real list \<Rightarrow> nat \<Rightarrow> real \<Rightarrow> nat \<Rightarrow> nat" where
  "argmax_scan [] j best besti = besti"
| "argmax_scan (x # xs) j best besti =
     (if best < x then argmax_scan xs (Suc j) x j else argmax_scan xs (Suc j) best besti)"

definition np_argmax :: "real list \<Rightarrow> error + nat" where
  "np_argmax a = (case a of [] \<Rightarrow> Inl ValueError | x # xs \<Rightarrow> Inr (argmax_scan xs 1 x 0))"

subsection \<open>The random source and the environment\<close>

text \<open>\<open>uniform\<close> is \<^verbatim>\<open>np.random.uniform(0, 1)\<close>; \<open>randint high\<close> is
  \<^verbatim>\<open>np.random.randint(0, high)\<close> for \<open>high > 0\<close>. Each returns the draw and the
  generator afterwards.\<close>

record 'g np_random =
  uniform :: "'g \<Rightarrow> real \<times> 'g"
  randint :: "nat \<Rightarrow> 'g \<Rightarrow> nat \<times> 'g"

text \<open>\<^verbatim>\<open>np.random.randint(0, high)\<close> raises \<^verbatim>\<open>ValueError\<close> when \<open>high \<le> 0\<close>.\<close>

definition random_randint :: "'g np_random \<Rightarrow> nat \<Rightarrow> 'g \<Rightarrow> error + nat \<times> 'g" where
  "random_randint rnd high g = (if high = 0 then Inl ValueError else Inr (randint rnd high g))"

text \<open>The environment: \<^verbatim>\<open>env.action_space.n\<close> and \<^verbatim>\<open>env.nA\<close> when the attribute
  exists, \<^verbatim>\<open>env.reset()\<close>, and \<^verbatim>\<open>env.step(action)\<close> with the \<open>info\<close> component
  dropped.\<close>

record ('e, 's) env =
  action_space_n :: "nat option"
  nA :: "nat option"
  reset :: "'e \<Rightarrow> 's \<times> 'e"
  step :: "'e \<Rightarrow> nat \<Rightarrow> ('s \<times> real \<times> bool) \<times> 'e"

subsection \<open>\<^verbatim>\<open>EpsilonGreedyPolicy\<close>\<close>

record 's EpsilonGreedyPolicy =
  Q_a :: "'s table"
  Q_b :: "'s table"
  epsilon :: real

text \<open>\<^verbatim>\<open>sample_action\<close>, lines 22 to 39.\<close>

definition sample_action ::
  "'g np_random \<Rightarrow> 's EpsilonGreedyPolicy \<Rightarrow> 's \<Rightarrow> 'g \<Rightarrow> error + nat \<times> 'g" where
  "sample_action rnd self obs g =
     bind_err (getitem (Q_a self) obs) (\<lambda>va.
     bind_err (getitem (Q_b self) obs) (\<lambda>vb.
     bind_err (np_add va vb) (\<lambda>action_values.
       (case uniform rnd g of (u, g1) \<Rightarrow>
          if u \<le> epsilon self
          then random_randint rnd (length action_values) g1
          else bind_err (np_argmax action_values) (\<lambda>action. Inr (action, g1))))))"

subsection \<open>The training loop\<close>

text \<open>Lines 94 to 101: the update for one observed transition. \<open>coin\<close> is the value of
  \<^verbatim>\<open>np.random.randint(0, 2)\<close>. The result carries the local \<^verbatim>\<open>max_action\<close> next
  to the two tables. The right-hand side of the assignment is evaluated before its
  target, left to right.\<close>

definition td_update ::
  "nat \<Rightarrow> real \<Rightarrow> real \<Rightarrow> nat \<Rightarrow> 's \<Rightarrow> nat \<Rightarrow> 's \<Rightarrow> real \<Rightarrow> 's table \<Rightarrow> 's table
   \<Rightarrow> error + nat \<times> 's table \<times> 's table" where
  "td_update num_actions alpha discount_factor coin state action next_state reward Qa Qb =
     (if coin \<noteq> 0 then
        (case setdefault Qa next_state (np_zeros num_actions) of (row_n, Qa1) \<Rightarrow>
         bind_err (np_argmax row_n) (\<lambda>max_action.
         bind_err (getitem Qa1 state) (\<lambda>row_s.
         bind_err (index row_s action) (\<lambda>q.
           (case setdefault Qb next_state (np_zeros num_actions) of (row_o, Qb1) \<Rightarrow>
            bind_err (index row_o max_action) (\<lambda>v.
              Inr (max_action,
                   setitem Qa1 state
                     (row_s[action := q + alpha * (reward + discount_factor * v - q)]),
                   Qb1)))))))
      else
        (case setdefault Qb next_state (np_zeros num_actions) of (row_n, Qb1) \<Rightarrow>
         bind_err (np_argmax row_n) (\<lambda>max_action.
         bind_err (getitem Qb1 state) (\<lambda>row_s.
         bind_err (index row_s action) (\<lambda>q.
           (case setdefault Qa next_state (np_zeros num_actions) of (row_o, Qa1) \<Rightarrow>
            bind_err (index row_o max_action) (\<lambda>v.
              Inr (max_action,
                   Qa1,
                   setitem Qb1 state
                     (row_s[action := q + alpha * (reward + discount_factor * v - q)])))))))))"

text \<open>What one pass of the loop body observes and leaves behind. This record is
  bookkeeping of the model only: nothing in the computation reads it.\<close>

record 's step_obs =
  obs_action :: nat
  obs_reward :: real
  obs_max_action :: nat
  obs_Q_a :: "'s table"
  obs_Q_b :: "'s table"

text \<open>Everything the function mutates: the policy with the two tables, the
  environment, the generator, the list \<^verbatim>\<open>stats\<close>, and the observations of the
  finished episodes.\<close>

record ('e, 'g, 's) learner =
  policy :: "'s EpsilonGreedyPolicy"
  env_state :: 'e
  rng_state :: 'g
  stats :: "(nat \<times> real) list"
  history :: "'s step_obs list list"

text \<open>The locals of the \<^verbatim>\<open>while\<close> loop: \<^verbatim>\<open>state\<close>, \<^verbatim>\<open>i\<close>, \<^verbatim>\<open>R\<close>, the observations of
  the running episode, and the learner.\<close>

type_synonym ('e, 'g, 's) locals = "'s \<times> nat \<times> real \<times> 's step_obs list \<times> ('e, 'g, 's) learner"

text \<open>Lines 90 to 106: one pass of the loop body; the boolean is \<^verbatim>\<open>done\<close>.\<close>

definition loop_body ::
  "('e, 's) env \<Rightarrow> 'g np_random \<Rightarrow> nat \<Rightarrow> real \<Rightarrow> real \<Rightarrow> ('e, 'g, 's) locals
   \<Rightarrow> error + ('e, 'g, 's) locals \<times> bool" where
  "loop_body env rnd num_actions discount_factor alpha loc =
     (case loc of (state, i, R, seen, L) \<Rightarrow>
      bind_err (sample_action rnd (policy L) state (rng_state L)) (\<lambda>(action, g1).
        (case step env (env_state L) action of ((next_state, reward, done), e1) \<Rightarrow>
         bind_err (random_randint rnd 2 g1) (\<lambda>(coin, g2).
         bind_err (td_update num_actions alpha discount_factor coin state action next_state
                     reward (Q_a (policy L)) (Q_b (policy L))) (\<lambda>(max_action, Qa', Qb').
           Inr ((next_state, i + 1, R + reward,
                 seen @ [\<lparr>obs_action = action, obs_reward = reward,
                          obs_max_action = max_action, obs_Q_a = Qa', obs_Q_b = Qb'\<rparr>],
                 L\<lparr>policy := (policy L)\<lparr>Q_a := Qa', Q_b := Qb'\<rparr>,
                   env_state := e1, rng_state := g2\<rparr>),
                done))))))"

text \<open>Lines 88 to 109: \<^verbatim>\<open>while True: ... if done: break\<close>.\<close>

partial_function (option) while_loop ::
  "('e, 's) env \<Rightarrow> 'g np_random \<Rightarrow> nat \<Rightarrow> real \<Rightarrow> real \<Rightarrow> ('e, 'g, 's) locals
   \<Rightarrow> (error + ('e, 'g, 's) locals) option" where
  "while_loop env rnd num_actions discount_factor alpha loc =
     (case loop_body env rnd num_actions discount_factor alpha loc of
        Inl e \<Rightarrow> Some (Inl e)
      | Inr (loc', done) \<Rightarrow>
          if done then Some (Inr loc')
          else while_loop env rnd num_actions discount_factor alpha loc')"

declare while_loop.simps [code]

text \<open>Lines 81 to 86: the start of an episode.\<close>

definition begin_episode ::
  "('e, 's) env \<Rightarrow> nat \<Rightarrow> ('e, 'g, 's) learner \<Rightarrow> ('e, 'g, 's) locals" where
  "begin_episode env num_actions L =
     (case reset env (env_state L) of (state, e1) \<Rightarrow>
        (state, 0, 0, [],
         L\<lparr>policy := (policy L)
              \<lparr>Q_a := setitem (Q_a (policy L)) state (np_zeros num_actions),
               Q_b := setitem (Q_b (policy L)) state (np_zeros num_actions)\<rparr>,
           env_state := e1\<rparr>))"

text \<open>Line 111: \<^verbatim>\<open>stats.append((i, R))\<close>.\<close>

definition end_episode :: "('e, 'g, 's) locals \<Rightarrow> ('e, 'g, 's) learner" where
  "end_episode loc =
     (case loc of (state, i, R, seen, L) \<Rightarrow>
        L\<lparr>stats := stats L @ [(i, R)], history := history L @ [seen]\<rparr>)"

text \<open>Lines 81 to 111: the body of the \<^verbatim>\<open>for\<close> loop.\<close>

definition episode ::
  "('e, 's) env \<Rightarrow> 'g np_random \<Rightarrow> nat \<Rightarrow> real \<Rightarrow> real \<Rightarrow> ('e, 'g, 's) learner
   \<Rightarrow> (error + ('e, 'g, 's) learner) option" where
  "episode env rnd num_actions discount_factor alpha L =
     (case while_loop env rnd num_actions discount_factor alpha (begin_episode env num_actions L) of
        None \<Rightarrow> None
      | Some (Inl e) \<Rightarrow> Some (Inl e)
      | Some (Inr loc) \<Rightarrow> Some (Inr (end_episode loc)))"

text \<open>Line 80: \<^verbatim>\<open>for i_episode in episode_range\<close>, by the number of episodes left.\<close>

fun episodes ::
  "('e, 's) env \<Rightarrow> 'g np_random \<Rightarrow> nat \<Rightarrow> real \<Rightarrow> real \<Rightarrow> nat \<Rightarrow> ('e, 'g, 's) learner
   \<Rightarrow> (error + ('e, 'g, 's) learner) option" where
  "episodes env rnd num_actions discount_factor alpha 0 L = Some (Inr L)"
| "episodes env rnd num_actions discount_factor alpha (Suc k) L =
     (case episode env rnd num_actions discount_factor alpha L of
        None \<Rightarrow> None
      | Some (Inl e) \<Rightarrow> Some (Inl e)
      | Some (Inr L') \<Rightarrow> episodes env rnd num_actions discount_factor alpha k L')"

text \<open>Lines 63 to 66: \<^verbatim>\<open>env.action_space.n\<close>, and \<^verbatim>\<open>env.nA\<close> when that attribute is
  missing.\<close>

definition get_num_actions :: "('e, 's) env \<Rightarrow> error + nat" where
  "get_num_actions env =
     (case action_space_n env of
        Some n \<Rightarrow> Inr n
      | None \<Rightarrow> (case nA env of Some n \<Rightarrow> Inr n | None \<Rightarrow> Inl AttributeError))"

text \<open>Lines 68 to 76: a table passed by the caller replaces the policy's.\<close>

definition bind_tables ::
  "'s EpsilonGreedyPolicy \<Rightarrow> 's table option \<Rightarrow> 's table option \<Rightarrow> 's EpsilonGreedyPolicy" where
  "bind_tables pol Qa_arg Qb_arg =
     (let pol1 = (case Qa_arg of None \<Rightarrow> pol | Some q \<Rightarrow> pol\<lparr>Q_a := q\<rparr>)
      in (case Qb_arg of None \<Rightarrow> pol1 | Some q \<Rightarrow> pol1\<lparr>Q_b := q\<rparr>))"

text \<open>Line 78: the range of episodes; the progress bar iterates the same range. A
  negative count gives an empty range.\<close>

definition episode_range :: "bool \<Rightarrow> int \<Rightarrow> nat" where
  "episode_range show_episodes num_episodes = nat num_episodes"

text \<open>Lines 62 to 111: everything before the statistics are unpacked.\<close>

definition train ::
  "('e, 's) env \<Rightarrow> 'g np_random \<Rightarrow> 's EpsilonGreedyPolicy \<Rightarrow> int \<Rightarrow> 's table option
   \<Rightarrow> 's table option \<Rightarrow> real \<Rightarrow> real \<Rightarrow> bool \<Rightarrow> 'e \<Rightarrow> 'g
   \<Rightarrow> (error + ('e, 'g, 's) learner) option" where
  "train env rnd pol num_episodes Qa_arg Qb_arg discount_factor alpha show_episodes e0 g0 =
     (case get_num_actions env of
        Inl e \<Rightarrow> Some (Inl e)
      | Inr num_actions \<Rightarrow>
          episodes env rnd num_actions discount_factor alpha
            (episode_range show_episodes num_episodes)
            \<lparr>policy = bind_tables pol Qa_arg Qb_arg, env_state = e0, rng_state = g0,
             stats = [], history = []\<rparr>)"

text \<open>Line 112: \<^verbatim>\<open>episode_lengths, episode_returns = zip(*stats)\<close>. With no episode
  \<^verbatim>\<open>zip()\<close> yields nothing and the unpacking into two names raises
  \<^verbatim>\<open>ValueError\<close>; with one or more episodes it yields the tuple of lengths and the
  tuple of returns.\<close>

definition unzip_stats :: "(nat \<times> real) list \<Rightarrow> error + nat list \<times> real list" where
  "unzip_stats st = (if st = [] then Inl ValueError else Inr (map fst st, map snd st))"

text \<open>Lines 114 to 116: the merged table, key by key in the order of \<^verbatim>\<open>Q_a.keys()\<close>.\<close>

fun merge_keys :: "'s list \<Rightarrow> 's table \<Rightarrow> 's table \<Rightarrow> 's table \<Rightarrow> error + 's table" where
  "merge_keys [] Qa Qb Q = Inr Q"
| "merge_keys (key # ks) Qa Qb Q =
     bind_err (getitem Qa key) (\<lambda>ra.
     bind_err (getitem Qb key) (\<lambda>rb.
     bind_err (np_add ra rb) (\<lambda>r.
       merge_keys ks Qa Qb (setitem Q key r))))"

definition merge_tables :: "'s table \<Rightarrow> 's table \<Rightarrow> error + 's table" where
  "merge_tables Qa Qb = merge_keys (keys Qa) Qa Qb []"

text \<open>\<^verbatim>\<open>double_q_learning\<close>, lines 42 to 117.\<close>

definition double_q_learning ::
  "('e, 's) env \<Rightarrow> 'g np_random \<Rightarrow> 's EpsilonGreedyPolicy \<Rightarrow> int \<Rightarrow> 's table option
   \<Rightarrow> 's table option \<Rightarrow> real \<Rightarrow> real \<Rightarrow> bool \<Rightarrow> 'e \<Rightarrow> 'g
   \<Rightarrow> (error + 's table \<times> nat list \<times> real list) option" where
  "double_q_learning env rnd pol num_episodes Qa_arg Qb_arg discount_factor alpha show_episodes e0 g0 =
     (case train env rnd pol num_episodes Qa_arg Qb_arg discount_factor alpha show_episodes e0 g0 of
        None \<Rightarrow> None
      | Some (Inl e) \<Rightarrow> Some (Inl e)
      | Some (Inr L) \<Rightarrow>
          Some (bind_err (unzip_stats (stats L)) (\<lambda>(episode_lengths, episode_returns).
                bind_err (merge_tables (Q_a (policy L)) (Q_b (policy L))) (\<lambda>Q.
                  Inr (Q, episode_lengths, episode_returns)))))"

subsection \<open>Notions used to state the properties\<close>

text \<open>The row a lookup with a zero default sees: the stored row, or \<open>n\<close> zeros.\<close>

definition row_or_zeros :: "'s table \<Rightarrow> 's \<Rightarrow> nat \<Rightarrow> real list" where
  "row_or_zeros d k n = (case map_of d k of None \<Rightarrow> np_zeros n | Some r \<Rightarrow> r)"

text \<open>\<open>m\<close> is the lowest index among the largest entries of \<open>a\<close>.\<close>

definition first_max :: "real list \<Rightarrow> nat \<Rightarrow> bool" where
  "first_max a m \<longleftrightarrow>
     m < length a \<and> (\<forall>k < length a. a ! k \<le> a ! m) \<and> (\<forall>k < m. a ! k < a ! m)"

text \<open>The two tables have the same keys.\<close>

definition key_synchronized :: "'s EpsilonGreedyPolicy \<Rightarrow> bool" where
  "key_synchronized pol \<longleftrightarrow> set (keys (Q_a pol)) = set (keys (Q_b pol))"

text \<open>The learners that any number of episode starts, passes of the loop body and
  episode ends lead to from \<open>L0\<close>, in any order and from any values of the loop's
  other locals.\<close>

inductive visited ::
  "('e, 's) env \<Rightarrow> 'g np_random \<Rightarrow> nat \<Rightarrow> real \<Rightarrow> real \<Rightarrow> ('e, 'g, 's) learner
   \<Rightarrow> ('e, 'g, 's) learner \<Rightarrow> bool"
  for env rnd num_actions discount_factor alpha L0 where
  initial: "visited env rnd num_actions discount_factor alpha L0 L0"
| started: "visited env rnd num_actions discount_factor alpha L0 L
    \<Longrightarrow> begin_episode env num_actions L = (state, i, R, seen, L')
    \<Longrightarrow> visited env rnd num_actions discount_factor alpha L0 L'"
| stepped: "visited env rnd num_actions discount_factor alpha L0 L
    \<Longrightarrow> loop_body env rnd num_actions discount_factor alpha (state, i, R, seen, L)
          = Inr ((state', i', R', seen', L'), done)
    \<Longrightarrow> visited env rnd num_actions discount_factor alpha L0 L'"
| finished: "visited env rnd num_actions discount_factor alpha L0 L
    \<Longrightarrow> visited env rnd num_actions discount_factor alpha L0 (end_episode (state, i, R, seen, L))"

text \<open>Every row of a table has length \<open>n\<close>; both tables of a policy do.\<close>

definition rows_have_length :: "nat \<Rightarrow> 's table \<Rightarrow> bool" where
  "rows_have_length n d \<longleftrightarrow> (\<forall>k row. map_of d k = Some row \<longrightarrow> length row = n)"

definition rows_ok :: "nat \<Rightarrow> 's EpsilonGreedyPolicy \<Rightarrow> bool" where
  "rows_ok n pol \<longleftrightarrow> rows_have_length n (Q_a pol) \<and> rows_have_length n (Q_b pol)"


text \<open>Tables as the data model has them: the same keys in both, rows of length \<open>n\<close>.\<close>

definition well_formed :: "nat \<Rightarrow> 's EpsilonGreedyPolicy \<Rightarrow> bool" where
  "well_formed n pol \<longleftrightarrow> key_synchronized pol \<and> rows_ok n pol"

text \<open>The statistics of one episode, from what its steps observed: the number of
  steps and the sum of the rewards.\<close>

definition episode_stat :: "'s step_obs list \<Rightarrow> nat \<times> real" where
  "episode_stat seen = (length seen, sum_list (map obs_reward seen))"

text \<open>Invariants of the \<^verbatim>\<open>while\<close> loop: the counters agree with the observations, and
  the current state has a row in well-formed tables.\<close>

definition stats_inv :: "('e, 'g, 's) locals \<Rightarrow> bool" where
  "stats_inv loc \<longleftrightarrow>
     (case loc of (state, i, R, seen, L) \<Rightarrow>
        i = length seen \<and> R = sum_list (map obs_reward seen) \<and>
        stats L = map episode_stat (history L))"


text \<open>Two generators, started in states that \<open>S\<close> relates, make the same draws for
  ever: related states give the same uniform draw and the same integer draw for
  every bound, and lead to related states.\<close>

definition same_draws :: "('g \<Rightarrow> 'h \<Rightarrow> bool) \<Rightarrow> 'g np_random \<Rightarrow> 'h np_random \<Rightarrow> bool" where
  "same_draws S rnd rnd' \<longleftrightarrow>
     (\<forall>g g'. S g g' \<longrightarrow>
        fst (uniform rnd g) = fst (uniform rnd' g') \<and>
        S (snd (uniform rnd g)) (snd (uniform rnd' g'))) \<and>
     (\<forall>high g g'. S g g' \<longrightarrow>
        fst (randint rnd high g) = fst (randint rnd' high g') \<and>
        S (snd (randint rnd high g)) (snd (randint rnd' high g')))"

text \<open>A learner without its generator: the policy with both tables, the
  environment, the statistics, and what every step of every episode observed.\<close>

definition visible ::
  "('e, 'g, 's) learner \<Rightarrow> 's EpsilonGreedyPolicy \<times> 'e \<times> (nat \<times> real) list \<times> 's step_obs list list" where
  "visible L = (policy L, env_state L, stats L, history L)"

text \<open>Two learners, and two sets of loop locals, that differ in their generators
  only, which are in related states.\<close>

definition learner_rel ::
  "('g \<Rightarrow> 'h \<Rightarrow> bool) \<Rightarrow> ('e, 'g, 's) learner \<Rightarrow> ('e, 'h, 's) learner \<Rightarrow> bool" where
  "learner_rel S L L' \<longleftrightarrow> visible L = visible L' \<and> S (rng_state L) (rng_state L')"

definition locals_rel ::
  "('g \<Rightarrow> 'h \<Rightarrow> bool) \<Rightarrow> ('e, 'g, 's) locals \<Rightarrow> ('e, 'h, 's) locals \<Rightarrow> bool" where
  "locals_rel S loc loc' \<longleftrightarrow>
     (case loc of (state, i, R, seen, L) \<Rightarrow>
      case loc' of (state', i', R', seen', L') \<Rightarrow>
        state = state' \<and> i = i' \<and> R = R' \<and> seen = seen' \<and> learner_rel S L L')"

text \<open>What the environment itself answers to a list of actions from state \<open>e\<close>:
  the reward and the \<open>done\<close> flag of each \<^verbatim>\<open>env.step\<close>, and the environment
  afterwards. For a list of episodes, each episode starts with \<^verbatim>\<open>env.reset()\<close>.\<close>

fun replay :: "('e, 's) env \<Rightarrow> 'e \<Rightarrow> nat list \<Rightarrow> (real \<times> bool) list \<times> 'e" where
  "replay env e [] = ([], e)"
| "replay env e (action # actions) =
     (case step env e action of ((next_state, reward, done), e1) \<Rightarrow>
        (case replay env e1 actions of (outs, e2) \<Rightarrow> ((reward, done) # outs, e2)))"






subsection \<open>Concrete inputs\<close>

text \<open>The two-action environment of the specification's scenario: from state 0,
  action 0 pays 1 and any other action pays -1, and the episode ends in state 1.\<close>

definition bandit_env :: "(nat, nat) env" where
  "bandit_env =
     \<lparr>action_space_n = Some 2, nA = None, reset = (\<lambda>e. (0, e)),
      step = (\<lambda>e a. ((1, if a = 0 then 1 else - 1, True), Suc e))\<rparr>"

text \<open>A generator that counts its draws: every uniform draw is one half, and an
  integer draw is the count modulo the bound.\<close>

definition counter_random :: "nat np_random" where
  "counter_random = \<lparr>uniform = (\<lambda>g. (1 / 2, Suc g)), randint = (\<lambda>h g. (g mod h, Suc g))\<rparr>"

definition empty_policy :: "nat EpsilonGreedyPolicy" where
  "empty_policy = \<lparr>Q_a = [], Q_b = [], epsilon = 0\<rparr>"

text \<open>A policy whose two rows for state 0 sum to the same value at every action.\<close>

definition tied_policy :: "nat EpsilonGreedyPolicy" where
  "tied_policy = \<lparr>Q_a = [(0, [1, 3, 2])], Q_b = [(0, [2, 0, 1])], epsilon = 0\<rparr>"

text \<open>A learner that has values for state 0 from before, the same learner after the
  start of an episode in \<open>bandit_env\<close>, and after the one step of that episode.\<close>

definition seeded_learner :: "(nat, nat, nat) learner" where
  "seeded_learner =
     \<lparr>policy = \<lparr>Q_a = [(0, [7, 7])], Q_b = [(0, [3, 3])], epsilon = 0\<rparr>,
      env_state = 0, rng_state = 0, stats = [], history = []\<rparr>"

definition reset_learner :: "(nat, nat, nat) learner" where
  "reset_learner =
     \<lparr>policy = \<lparr>Q_a = [(0, [0, 0])], Q_b = [(0, [0, 0])], epsilon = 0\<rparr>,
      env_state = 0, rng_state = 0, stats = [], history = []\<rparr>"

definition stepped_learner :: "(nat, nat, nat) learner" where
  "stepped_learner =
     \<lparr>policy = \<lparr>Q_a = [(0, [1 / 2, 0]), (1, [0, 0])], Q_b = [(0, [0, 0]), (1, [0, 0])],
                epsilon = 0\<rparr>,
      env_state = 1, rng_state = 2, stats = [], history = []\<rparr>"

definition first_obs :: "nat step_obs" where
  "first_obs = \<lparr>obs_action = 0, obs_reward = 1, obs_max_action = 0,
                obs_Q_a = [(0, [1 / 2, 0]), (1, [0, 0])], obs_Q_b = [(0, [0, 0]), (1, [0, 0])]\<rparr>"

text \<open>The learner after two episodes in \<open>bandit_env\<close> from empty tables.\<close>

definition trained_learner :: "(nat, nat, nat) learner" where
  "trained_learner =
     \<lparr>policy = \<lparr>Q_a = [(0, [1 / 2, 0]), (1, [0, 0])], Q_b = [(0, [0, 0]), (1, [0, 0])],
                epsilon = 0\<rparr>,
      env_state = 2, rng_state = 4, stats = [(1, 1), (1, 1)],
      history = [[first_obs], [first_obs]]\<rparr>"

text \<open>A second generator that makes the draws of \<open>counter_random\<close> from an integer
  state, and the relation between the states of the two.\<close>

definition int_random :: "int np_random" where
  "int_random = \<lparr>uniform = (\<lambda>z. (1 / 2, z + 1)), randint = (\<lambda>h z. (nat z mod h, z + 1))\<rparr>"

definition same_count :: "nat \<Rightarrow> int \<Rightarrow> bool" where
  "same_count g z \<longleftrightarrow> z = int g"

text \<open>The learner after one episode in \<open>bandit_env\<close> when the caller passed a
  \<open>Q_a\<close> that has the key 5 and took the policy's empty \<open>Q_b\<close>.\<close>

definition unsynced_learner :: "(nat, nat, nat) learner" where
  "unsynced_learner =
     \<lparr>policy = \<lparr>Q_a = [(5, [0, 0]), (0, [1 / 2, 0]), (1, [0, 0])],
                Q_b = [(0, [0, 0]), (1, [0, 0])], epsilon = 0\<rparr>,
      env_state = 1, rng_state = 2, stats = [(1, 1)],
      history = [[\<lparr>obs_action = 0, obs_reward = 1, obs_max_action = 0,
                   obs_Q_a = [(5, [0, 0]), (0, [1 / 2, 0]), (1, [0, 0])],
                   obs_Q_b = [(0, [0, 0]), (1, [0, 0])]\<rparr>]]\<rparr>"

text \<open>An environment whose first step stays in state 0 and whose later steps end
  the episode in state 1; the reward depends on the step and on the action. Its
  action count is under \<^verbatim>\<open>nA\<close>. With a policy that always explores, the learners
  after one and after two episodes from empty tables.\<close>

definition loop_env :: "(nat, nat) env" where
  "loop_env =
     \<lparr>action_space_n = None, nA = Some 2, reset = (\<lambda>e. (0, e)),
      step = (\<lambda>e a. ((if e = 0 then 0 else 1, of_nat (2 * e + 1) + 10 * of_nat a, e \<noteq> 0),
                      Suc e))\<rparr>"

definition exploring_policy :: "nat EpsilonGreedyPolicy" where
  "exploring_policy = \<lparr>Q_a = [], Q_b = [], epsilon = 1\<rparr>"

definition explored_learner :: "(nat, nat, nat) learner" where
  "explored_learner =
     \<lparr>policy = \<lparr>Q_a = [(0, [3 / 2, 0]), (1, [0, 0])], Q_b = [(0, [0, 11 / 2]), (1, [0, 0])],
                epsilon = 1\<rparr>,
      env_state = 2, rng_state = 6, stats = [(2, 14)],
      history =
        [[\<lparr>obs_action = 1, obs_reward = 11, obs_max_action = 0,
            obs_Q_a = [(0, [0, 0])], obs_Q_b = [(0, [0, 11 / 2])]\<rparr>,
          \<lparr>obs_action = 0, obs_reward = 3, obs_max_action = 0,
            obs_Q_a = [(0, [3 / 2, 0]), (1, [0, 0])],
            obs_Q_b = [(0, [0, 11 / 2]), (1, [0, 0])]\<rparr>]]\<rparr>"


section \<open>Basic facts\<close>

lemma bind_err_Inr_iff: "bind_err m f = Inr y \<longleftrightarrow> (\<exists>x. m = Inr x \<and> f x = Inr y)"
  by (cases m) auto

lemma bind_err_Inl_iff:
  "bind_err m f = Inl e \<longleftrightarrow> m = Inl e \<or> (\<exists>x. m = Inr x \<and> f x = Inl e)"
  by (cases m) auto

lemma keys_iff_map_of: "k \<in> set (keys d) \<longleftrightarrow> map_of d k \<noteq> None"
  by (simp add: keys_def map_of_eq_None_iff)

lemma getitem_Inr_iff: "getitem d k = Inr v \<longleftrightarrow> map_of d k = Some v"
  by (simp add: getitem_def split: option.splits)

lemma getitem_Inl_iff: "getitem d k = Inl e \<longleftrightarrow> e = KeyError \<and> k \<notin> set (keys d)"
  by (auto simp: getitem_def keys_iff_map_of split: option.splits)

lemma keys_setitem: "set (keys (setitem d k v)) = insert k (set (keys d))"
  using dom_update [of k v d] by (simp add: keys_def setitem_def dom_map_of_conv_image_fst)

lemma map_of_setitem: "map_of (setitem d k v) = (map_of d)(k \<mapsto> v)"
  by (simp add: setitem_def update_conv')

lemma keys_setdefault: "set (keys (snd (setdefault d k v))) = insert k (set (keys d))"
  by (auto simp: setdefault_def keys_setitem keys_iff_map_of split: option.splits)

lemma map_of_setdefault:
  "map_of (snd (setdefault d k v)) =
     (map_of d)(k \<mapsto> (case map_of d k of None \<Rightarrow> v | Some r \<Rightarrow> r))"
  by (auto simp: setdefault_def map_of_setitem split: option.splits)

lemma fst_setdefault: "fst (setdefault d k v) = (case map_of d k of None \<Rightarrow> v | Some r \<Rightarrow> r)"
  by (simp add: setdefault_def split: option.splits)

subsection \<open>\<open>np_argmax\<close> returns the first maximum\<close>

lemma argmax_scan_first_max:
  "length pre = j \<Longrightarrow> first_max pre besti \<Longrightarrow> pre ! besti = best
   \<Longrightarrow> first_max (pre @ xs) (argmax_scan xs j best besti)"
proof (induction xs arbitrary: pre j best besti)
  case Nil
  then show ?case by simp
next
  case (Cons x xs)
  show ?case
  proof (cases "best < x")
    case True
    have "first_max (pre @ [x]) j"
      using Cons.prems True
      by (auto simp: first_max_def nth_append less_Suc_eq intro: order_trans less_imp_le le_less_trans)
    from Cons.IH [of "pre @ [x]" "Suc j" j x, OF _ this] Cons.prems True
    show ?thesis by (simp add: nth_append)
  next
    case False
    have "first_max (pre @ [x]) besti"
      using Cons.prems False
      by (auto simp: first_max_def nth_append less_Suc_eq)
    from Cons.IH [of "pre @ [x]" "Suc j" besti best, OF _ this] Cons.prems False
    show ?thesis by (simp add: first_max_def nth_append)
  qed
qed

lemma np_argmax_first_max: "np_argmax a = Inr m \<Longrightarrow> first_max a m"
proof (cases a)
  case Nil
  assume "np_argmax a = Inr m"
  with Nil show ?thesis by (simp add: np_argmax_def)
next
  case (Cons x xs)
  assume "np_argmax a = Inr m"
  with Cons have m: "m = argmax_scan xs 1 x 0" by (simp add: np_argmax_def)
  have "first_max [x] 0" by (simp add: first_max_def)
  from argmax_scan_first_max [of "[x]" 1 0 x xs, OF _ this] Cons m
  show ?thesis by simp
qed

lemma np_argmax_nonempty: "a \<noteq> [] \<Longrightarrow> \<exists>m. np_argmax a = Inr m"
  by (cases a) (simp_all add: np_argmax_def)

lemma np_argmax_Inl_iff: "np_argmax a = Inl e \<longleftrightarrow> a = [] \<and> e = ValueError"
  by (cases a) (auto simp: np_argmax_def)

lemma first_max_unique: "first_max a m \<Longrightarrow> first_max a m' \<Longrightarrow> m = m'"
  unfolding first_max_def by (metis linorder_neqE_nat not_le)

subsection \<open>The update and the loop body, case by case\<close>

lemma index_Inr_iff: "index a i = Inr x \<longleftrightarrow> i < length a \<and> x = a ! i"
  by (auto simp: index_def)

lemma td_update_heads:
  assumes "coin \<noteq> 0"
  shows "td_update n alpha discount_factor coin s a s' r Qa Qb = Inr (m, Qa', Qb') \<longleftrightarrow>
     (\<exists>row. np_argmax (row_or_zeros Qa s' n) = Inr m \<and>
        map_of (snd (setdefault Qa s' (np_zeros n))) s = Some row \<and>
        a < length row \<and> m < length (row_or_zeros Qb s' n) \<and>
        Qa' = setitem (snd (setdefault Qa s' (np_zeros n))) s
                (row[a := row ! a + alpha * (r + discount_factor * (row_or_zeros Qb s' n ! m) - row ! a)]) \<and>
        Qb' = snd (setdefault Qb s' (np_zeros n)))"
  using assms
  by (auto simp: td_update_def case_prod_beta bind_err_Inr_iff index_Inr_iff getitem_Inr_iff
        row_or_zeros_def fst_setdefault)

lemma td_update_tails:
  assumes "coin = 0"
  shows "td_update n alpha discount_factor coin s a s' r Qa Qb = Inr (m, Qa', Qb') \<longleftrightarrow>
     (\<exists>row. np_argmax (row_or_zeros Qb s' n) = Inr m \<and>
        map_of (snd (setdefault Qb s' (np_zeros n))) s = Some row \<and>
        a < length row \<and> m < length (row_or_zeros Qa s' n) \<and>
        Qb' = setitem (snd (setdefault Qb s' (np_zeros n))) s
                (row[a := row ! a + alpha * (r + discount_factor * (row_or_zeros Qa s' n ! m) - row ! a)]) \<and>
        Qa' = snd (setdefault Qa s' (np_zeros n)))"
  using assms
  by (auto simp: td_update_def case_prod_beta bind_err_Inr_iff index_Inr_iff getitem_Inr_iff
        row_or_zeros_def fst_setdefault)

lemma map_of_setdefault_zeros:
  "map_of (snd (setdefault d k (np_zeros n))) = (map_of d)(k \<mapsto> row_or_zeros d k n)"
  by (simp add: map_of_setdefault row_or_zeros_def)

lemma loop_body_Inr_iff:
  "loop_body env rnd n discount_factor alpha (state, i, R, seen, L) = Inr (loc', done) \<longleftrightarrow>
     (\<exists>action g1 next_state reward e1 coin g2 m Qa' Qb'.
        sample_action rnd (policy L) state (rng_state L) = Inr (action, g1) \<and>
        step env (env_state L) action = ((next_state, reward, done), e1) \<and>
        randint rnd 2 g1 = (coin, g2) \<and>
        td_update n alpha discount_factor coin state action next_state reward
          (Q_a (policy L)) (Q_b (policy L)) = Inr (m, Qa', Qb') \<and>
        loc' = (next_state, i + 1, R + reward,
                seen @ [\<lparr>obs_action = action, obs_reward = reward, obs_max_action = m,
                         obs_Q_a = Qa', obs_Q_b = Qb'\<rparr>],
                L\<lparr>policy := (policy L)\<lparr>Q_a := Qa', Q_b := Qb'\<rparr>,
                  env_state := e1, rng_state := g2\<rparr>))"
  by (auto simp: loop_body_def bind_err_Inr_iff random_randint_def case_prod_beta prod_eq_iff)

lemma np_add_same_length:
  "length va = length vb \<Longrightarrow> np_add va vb = Inr (map2 (+) va vb)"
  by (simp add: np_add_def)

lemma loop_body_example:
  "loop_body bandit_env counter_random 2 1 (1 / 2) (0, 0, 0, [], reset_learner)
     = Inr ((1, 1, 1, [first_obs], stepped_learner), True)"
  by code_simp

subsection \<open>Invariants of the loops\<close>

lemma while_loop_rule:
  assumes run: "while_loop env rnd n discount_factor alpha loc = Some (Inr final)"
    and init: "I loc"
    and body: "\<And>loc loc' done. I loc
      \<Longrightarrow> loop_body env rnd n discount_factor alpha loc = Inr (loc', done) \<Longrightarrow> I loc'"
  shows "I final"
proof -
  let ?P = "\<lambda>e r k d a l (y :: error + _).
      e = env \<and> r = rnd \<and> k = n \<and> d = discount_factor \<and> a = alpha \<and> I l
      \<longrightarrow> (\<forall>loc'. y = Inr loc' \<longrightarrow> I loc')"
  have "?P env rnd n discount_factor alpha loc (Inr final)"
  proof (rule while_loop.raw_induct [where P = ?P, OF _ run])
    fix f e r k d a l y
    assume IH: "\<And>e r k d a l y. f e r k d a l = Some y \<Longrightarrow> ?P e r k d a l y"
      and eq: "(case loop_body e r k d a l of
                  Inl e \<Rightarrow> Some (Inl e)
                | Inr (loc', done) \<Rightarrow> if done then Some (Inr loc') else f e r k d a loc') = Some y"
    show "?P e r k d a l y"
    proof (intro impI allI, elim conjE)
      fix loc'
      assume eqs: "e = env" "r = rnd" "k = n" "d = discount_factor" "a = alpha"
        and I: "I l" and res: "y = Inr loc'"
      show "I loc'"
      proof (cases "loop_body env rnd n discount_factor alpha l")
        case (Inl err)
        with eq eqs res show ?thesis by simp
      next
        case (Inr p)
        obtain loc1 dn where p: "p = (loc1, dn)" by (cases p)
        from body [OF I] Inr p have I1: "I loc1" by simp
        show ?thesis
        proof (cases dn)
          case True
          with eq eqs res Inr p I1 show ?thesis by simp
        next
          case False
          with eq eqs Inr p have "f env rnd n discount_factor alpha loc1 = Some y" by simp
          from IH [OF this] I1 res show ?thesis by simp
        qed
      qed
    qed
  qed
  with init show ?thesis by simp
qed

lemma episode_Inr_iff:
  "episode env rnd n discount_factor alpha L = Some (Inr L') \<longleftrightarrow>
     (\<exists>loc. while_loop env rnd n discount_factor alpha (begin_episode env n L) = Some (Inr loc) \<and>
        L' = end_episode loc)"
  by (auto simp: episode_def split: option.splits sum.splits)

lemma episodes_rule:
  assumes "episodes env rnd n discount_factor alpha k L = Some (Inr L')"
    and "J L"
    and "\<And>L L'. J L \<Longrightarrow> episode env rnd n discount_factor alpha L = Some (Inr L') \<Longrightarrow> J L'"
  shows "J L'"
  using assms(1,2)
proof (induction k arbitrary: L)
  case 0
  then show ?case by simp
next
  case (Suc k)
  from Suc.prems(1) obtain L1 where
    e: "episode env rnd n discount_factor alpha L = Some (Inr L1)" and
    r: "episodes env rnd n discount_factor alpha k L1 = Some (Inr L')"
    by (auto split: option.splits sum.splits)
  from assms(3) [OF Suc.prems(2) e] have "J L1" .
  from Suc.IH [OF r this] show ?case .
qed

lemma training_rule:
  assumes run: "episodes env rnd n discount_factor alpha k L = Some (Inr L')"
    and init: "J L"
    and start: "\<And>L. J L \<Longrightarrow> I (begin_episode env n L)"
    and body: "\<And>loc loc' done. I loc
      \<Longrightarrow> loop_body env rnd n discount_factor alpha loc = Inr (loc', done) \<Longrightarrow> I loc'"
    and finish: "\<And>loc. I loc \<Longrightarrow> J (end_episode loc)"
  shows "J L'"
proof (rule episodes_rule [where J = J, OF run init])
  fix L L'
  assume J: "J L" and e: "episode env rnd n discount_factor alpha L = Some (Inr L')"
  from e obtain loc where
    w: "while_loop env rnd n discount_factor alpha (begin_episode env n L) = Some (Inr loc)"
    and L': "L' = end_episode loc"
    unfolding episode_Inr_iff by blast
  from while_loop_rule [where I = I, OF w start [OF J] body] have "I loc" .
  with L' show "J L'" by (simp add: finish)
qed

lemma train_Inr_iff:
  "train env rnd pol num_episodes Qa_arg Qb_arg discount_factor alpha show_episodes e0 g0
     = Some (Inr L) \<longleftrightarrow>
   (\<exists>n. get_num_actions env = Inr n \<and>
      episodes env rnd n discount_factor alpha (nat num_episodes)
        \<lparr>policy = bind_tables pol Qa_arg Qb_arg, env_state = e0, rng_state = g0,
         stats = [], history = []\<rparr> = Some (Inr L))"
  by (auto simp: train_def episode_range_def split: sum.splits)

lemma td_update_keys:
  assumes "td_update n alpha discount_factor coin s a s' r Qa Qb = Inr (m, Qa', Qb')"
  shows "set (keys Qa') = insert s' (set (keys Qa)) \<and> set (keys Qb') = insert s' (set (keys Qb))"
proof (cases "coin = 0")
  case True
  from assms obtain row where
    row: "map_of (snd (setdefault Qb s' (np_zeros n))) s = Some row"
    and "Qb' = setitem (snd (setdefault Qb s' (np_zeros n))) s
                (row[a := row ! a + alpha * (r + discount_factor * (row_or_zeros Qa s' n ! m) - row ! a)])"
    and "Qa' = snd (setdefault Qa s' (np_zeros n))"
    unfolding td_update_tails [OF True] by blast
  moreover from row have "s \<in> set (keys (snd (setdefault Qb s' (np_zeros n))))"
    by (simp add: keys_iff_map_of)
  ultimately show ?thesis by (auto simp: keys_setitem keys_setdefault)
next
  case False
  from assms obtain row where
    row: "map_of (snd (setdefault Qa s' (np_zeros n))) s = Some row"
    and "Qa' = setitem (snd (setdefault Qa s' (np_zeros n))) s
                (row[a := row ! a + alpha * (r + discount_factor * (row_or_zeros Qb s' n ! m) - row ! a)])"
    and "Qb' = snd (setdefault Qb s' (np_zeros n))"
    unfolding td_update_heads [OF False] by blast
  moreover from row have "s \<in> set (keys (snd (setdefault Qa s' (np_zeros n))))"
    by (simp add: keys_iff_map_of)
  ultimately show ?thesis by (auto simp: keys_setitem keys_setdefault)
qed

lemma loop_body_key_synchronized:
  assumes "loop_body env rnd n discount_factor alpha (state, i, R, seen, L)
             = Inr ((state', i', R', seen', L'), done)"
    and "key_synchronized (policy L)"
  shows "key_synchronized (policy L')"
proof -
  from assms(1) obtain action reward coin m Qa' Qb' e1 g2 where
    td: "td_update n alpha discount_factor coin state action state' reward
           (Q_a (policy L)) (Q_b (policy L)) = Inr (m, Qa', Qb')" and
    L': "L' = L\<lparr>policy := (policy L)\<lparr>Q_a := Qa', Q_b := Qb'\<rparr>, env_state := e1, rng_state := g2\<rparr>"
    unfolding loop_body_Inr_iff by blast
  from td_update_keys [OF td] assms(2) L' show ?thesis
    by (simp add: key_synchronized_def)
qed

lemma begin_episode_key_synchronized:
  assumes "begin_episode env n L = (state, i, R, seen, L')" and "key_synchronized (policy L)"
  shows "key_synchronized (policy L')"
  using assms by (auto simp: begin_episode_def key_synchronized_def keys_setitem split: prod.splits)

lemma policy_end_episode: "policy (end_episode (state, i, R, seen, L)) = policy L"
  by (simp add: end_episode_def)

lemma visited_key_synchronized:
  assumes "visited env rnd n discount_factor alpha L0 L" and "key_synchronized (policy L0)"
  shows "key_synchronized (policy L)"
  using assms
proof (induction rule: visited.induct)
  case initial
  then show ?case by simp
next
  case (started L state i R seen L')
  then show ?case by (blast intro: begin_episode_key_synchronized)
next
  case (stepped L state i R seen state' i' R' seen' L' "done")
  then show ?case by (blast intro: loop_body_key_synchronized)
next
  case (finished L state i R seen)
  then show ?case by (simp add: policy_end_episode)
qed

lemma episodes_key_synchronized:
  assumes "episodes env rnd n discount_factor alpha k L = Some (Inr L')"
    and "key_synchronized (policy L)"
  shows "key_synchronized (policy L')"
proof (rule training_rule [where J = "\<lambda>L. key_synchronized (policy L)"
      and I = "\<lambda>loc. key_synchronized (policy (snd (snd (snd (snd loc)))))", OF assms(1)])
  show "key_synchronized (policy L)" by (rule assms(2))
next
  fix L :: "('a, 'b, 'c) learner"
  assume "key_synchronized (policy L)"
  then show "key_synchronized (policy (snd (snd (snd (snd (begin_episode env n L))))))"
    using begin_episode_key_synchronized [of env n L]
    by (cases "begin_episode env n L") auto
next
  fix loc loc' :: "('a, 'b, 'c) locals" and dn
  assume "key_synchronized (policy (snd (snd (snd (snd loc)))))"
    and "loop_body env rnd n discount_factor alpha loc = Inr (loc', dn)"
  then show "key_synchronized (policy (snd (snd (snd (snd loc')))))"
    using loop_body_key_synchronized [of env rnd n discount_factor alpha]
    by (cases loc; cases loc') auto
next
  fix loc :: "('a, 'b, 'c) locals"
  assume "key_synchronized (policy (snd (snd (snd (snd loc)))))"
  then show "key_synchronized (policy (end_episode loc))"
    by (cases loc) (simp add: policy_end_episode)
qed

lemma train_example:
  "train bandit_env counter_random empty_policy 2 None None 1 (1 / 2) True 0 0
     = Some (Inr trained_learner)"
  by code_simp

lemma rows_have_length_setitem:
  "rows_have_length n d \<Longrightarrow> length row = n \<Longrightarrow> rows_have_length n (setitem d k row)"
  by (simp add: rows_have_length_def map_of_setitem)

lemma rows_have_length_setdefault:
  "rows_have_length n d \<Longrightarrow> rows_have_length n (snd (setdefault d k (np_zeros n)))"
  by (auto simp: rows_have_length_def map_of_setdefault np_zeros_def split: option.splits)


lemma td_update_rows:
  assumes "td_update n alpha discount_factor coin s a s' r Qa Qb = Inr (m, Qa', Qb')"
    and "rows_have_length n Qa" and "rows_have_length n Qb"
  shows "rows_have_length n Qa' \<and> rows_have_length n Qb'"
proof (cases "coin = 0")
  case True
  from assms(1) obtain row where
    row: "map_of (snd (setdefault Qb s' (np_zeros n))) s = Some row"
    and b: "Qb' = setitem (snd (setdefault Qb s' (np_zeros n))) s
                (row[a := row ! a + alpha * (r + discount_factor * (row_or_zeros Qa s' n ! m) - row ! a)])"
    and a: "Qa' = snd (setdefault Qa s' (np_zeros n))"
    unfolding td_update_tails [OF True] by blast
  have "rows_have_length n (snd (setdefault Qb s' (np_zeros n)))"
    using assms(3) by (rule rows_have_length_setdefault)
  moreover from this row have "length row = n" by (simp add: rows_have_length_def)
  ultimately show ?thesis using a b assms(2)
    by (simp add: rows_have_length_setitem rows_have_length_setdefault)
next
  case False
  from assms(1) obtain row where
    row: "map_of (snd (setdefault Qa s' (np_zeros n))) s = Some row"
    and a: "Qa' = setitem (snd (setdefault Qa s' (np_zeros n))) s
                (row[a := row ! a + alpha * (r + discount_factor * (row_or_zeros Qb s' n ! m) - row ! a)])"
    and b: "Qb' = snd (setdefault Qb s' (np_zeros n))"
    unfolding td_update_heads [OF False] by blast
  have "rows_have_length n (snd (setdefault Qa s' (np_zeros n)))"
    using assms(2) by (rule rows_have_length_setdefault)
  moreover from this row have "length row = n" by (simp add: rows_have_length_def)
  ultimately show ?thesis using a b assms(3)
    by (simp add: rows_have_length_setitem rows_have_length_setdefault)
qed

lemma loop_body_rows:
  assumes "loop_body env rnd n discount_factor alpha (state, i, R, seen, L)
             = Inr ((state', i', R', seen', L'), done)"
    and "rows_ok n (policy L)"
  shows "rows_ok n (policy L')"
proof -
  from assms(1) obtain action reward coin m Qa' Qb' e1 g2 where
    td: "td_update n alpha discount_factor coin state action state' reward
           (Q_a (policy L)) (Q_b (policy L)) = Inr (m, Qa', Qb')" and
    L': "L' = L\<lparr>policy := (policy L)\<lparr>Q_a := Qa', Q_b := Qb'\<rparr>, env_state := e1, rng_state := g2\<rparr>"
    unfolding loop_body_Inr_iff by blast
  from td_update_rows [OF td] assms(2) L' show ?thesis
    by (simp add: rows_ok_def)
qed

lemma begin_episode_rows:
  assumes "begin_episode env n L = (state, i, R, seen, L')" and "rows_ok n (policy L)"
  shows "rows_ok n (policy L')"
  using assms
  by (auto simp: begin_episode_def rows_ok_def rows_have_length_setitem np_zeros_def
      split: prod.splits)

lemma episodes_rows:
  assumes "episodes env rnd n discount_factor alpha k L = Some (Inr L')"
    and "rows_ok n (policy L)"
  shows "rows_ok n (policy L')"
proof (rule training_rule [where J = "\<lambda>L. rows_ok n (policy L)"
      and I = "\<lambda>loc. rows_ok n (policy (snd (snd (snd (snd loc)))))", OF assms(1)])
  show "rows_ok n (policy L)" by (rule assms(2))
next
  fix L :: "('a, 'b, 'c) learner"
  assume "rows_ok n (policy L)"
  then show "rows_ok n (policy (snd (snd (snd (snd (begin_episode env n L))))))"
    using begin_episode_rows [of env n L]
    by (cases "begin_episode env n L") auto
next
  fix loc loc' :: "('a, 'b, 'c) locals" and dn
  assume "rows_ok n (policy (snd (snd (snd (snd loc)))))"
    and "loop_body env rnd n discount_factor alpha loc = Inr (loc', dn)"
  then show "rows_ok n (policy (snd (snd (snd (snd loc')))))"
    using loop_body_rows [of env rnd n discount_factor alpha]
    by (cases loc; cases loc') auto
next
  fix loc :: "('a, 'b, 'c) locals"
  assume "rows_ok n (policy (snd (snd (snd (snd loc)))))"
  then show "rows_ok n (policy (end_episode loc))"
    by (cases loc) (simp add: policy_end_episode)
qed

lemma merge_keys_Inr:
  assumes "merge_keys ks Qa Qb Q0 = Inr Q"
  shows "(\<forall>k \<in> set ks. \<exists>ra rb rq. map_of Qa k = Some ra \<and> map_of Qb k = Some rb \<and>
            np_add ra rb = Inr rq \<and> map_of Q k = Some rq) \<and>
         (\<forall>k. k \<notin> set ks \<longrightarrow> map_of Q k = map_of Q0 k)"
  using assms
proof (induction ks arbitrary: Q0)
  case Nil
  then show ?case by simp
next
  case (Cons key ks)
  from Cons.prems obtain ra rb rq where
    ra: "map_of Qa key = Some ra" and rb: "map_of Qb key = Some rb" and
    rq: "np_add ra rb = Inr rq" and
    rest: "merge_keys ks Qa Qb (setitem Q0 key rq) = Inr Q"
    by (auto simp: bind_err_Inr_iff getitem_Inr_iff)
  note IH = Cons.IH [OF rest]
  have key: "\<exists>ra rb rq. map_of Qa key = Some ra \<and> map_of Qb key = Some rb \<and>
            np_add ra rb = Inr rq \<and> map_of Q key = Some rq"
  proof (cases "key \<in> set ks")
    case True
    with IH show ?thesis by blast
  next
    case False
    with IH have "map_of Q key = map_of (setitem Q0 key rq) key" by blast
    with ra rb rq show ?thesis by (simp add: map_of_setitem)
  qed
  have other: "\<forall>k. k \<notin> set (key # ks) \<longrightarrow> map_of Q k = map_of Q0 k"
    using IH by (auto simp: map_of_setitem)
  from key IH other show ?case by auto
qed

lemma merge_tables_Inr:
  assumes "merge_tables Qa Qb = Inr Q"
  shows "set (keys Q) = set (keys Qa) \<and>
         (\<forall>k \<in> set (keys Qa). \<exists>ra rb rq. map_of Qa k = Some ra \<and> map_of Qb k = Some rb \<and>
            np_add ra rb = Inr rq \<and> map_of Q k = Some rq)"
proof -
  note m = merge_keys_Inr [OF assms [unfolded merge_tables_def]]
  have "k \<in> set (keys Q) \<longleftrightarrow> k \<in> set (keys Qa)" for k
  proof (cases "k \<in> set (keys Qa)")
    case True
    with m show ?thesis by (auto simp: keys_iff_map_of)
  next
    case False
    with m have "map_of Q k = map_of [] k" by blast
    with False show ?thesis by (simp add: keys_iff_map_of)
  qed
  with m show ?thesis by blast
qed

lemma double_q_learning_Inr_iff:
  "double_q_learning env rnd pol num_episodes Qa_arg Qb_arg discount_factor alpha show_episodes e0 g0
     = Some (Inr (Q, lens, rets)) \<longleftrightarrow>
   (\<exists>L. train env rnd pol num_episodes Qa_arg Qb_arg discount_factor alpha show_episodes e0 g0
           = Some (Inr L) \<and>
        stats L \<noteq> [] \<and> lens = map fst (stats L) \<and> rets = map snd (stats L) \<and>
        merge_tables (Q_a (policy L)) (Q_b (policy L)) = Inr Q)"
  by (auto simp: double_q_learning_def unzip_stats_def bind_err_Inr_iff
      split: option.splits sum.splits if_splits)

subsection \<open>The statistics\<close>

lemma stats_inv_body:
  assumes "stats_inv loc"
    and "loop_body env rnd n discount_factor alpha loc = Inr (loc', done)"
  shows "stats_inv loc'"
proof -
  obtain state i R seen L where loc: "loc = (state, i, R, seen, L)" by (cases loc)
  from assms(2) show ?thesis
    unfolding loc loop_body_Inr_iff using assms(1)
    by (auto simp: stats_inv_def loc)
qed

lemma episodes_stats_history:
  assumes "episodes env rnd n discount_factor alpha k L = Some (Inr L')"
    and "stats L = map episode_stat (history L)"
  shows "stats L' = map episode_stat (history L')"
proof (rule training_rule [where J = "\<lambda>L. stats L = map episode_stat (history L)"
      and I = stats_inv, OF assms(1)])
  show "stats L = map episode_stat (history L)" by (rule assms(2))
next
  fix L :: "('a, 'b, 'c) learner"
  assume "stats L = map episode_stat (history L)"
  then show "stats_inv (begin_episode env n L)"
    by (simp add: stats_inv_def begin_episode_def split: prod.splits)
next
  fix loc loc' :: "('a, 'b, 'c) locals" and dn
  assume "stats_inv loc" and "loop_body env rnd n discount_factor alpha loc = Inr (loc', dn)"
  then show "stats_inv loc'" by (rule stats_inv_body)
next
  fix loc :: "('a, 'b, 'c) locals"
  assume "stats_inv loc"
  then show "stats (end_episode loc) = map episode_stat (history (end_episode loc))"
    by (cases loc) (simp add: stats_inv_def end_episode_def episode_stat_def)
qed

lemma episode_history_length:
  assumes "episode env rnd n discount_factor alpha L = Some (Inr L')"
  shows "length (history L') = Suc (length (history L))"
proof -
  from assms obtain loc where
    w: "while_loop env rnd n discount_factor alpha (begin_episode env n L) = Some (Inr loc)"
    and L': "L' = end_episode loc"
    unfolding episode_Inr_iff by blast
  have "history (snd (snd (snd (snd loc)))) = history L"
  proof (rule while_loop_rule [where I = "\<lambda>l. history (snd (snd (snd (snd l)))) = history L", OF w])
    show "history (snd (snd (snd (snd (begin_episode env n L)))))  = history L"
      by (simp add: begin_episode_def split: prod.splits)
  next
    fix l l' dn
    assume h: "history (snd (snd (snd (snd l)))) = history L"
      and b: "loop_body env rnd n discount_factor alpha l = Inr (l', dn)"
    obtain state i R seen L1 where l: "l = (state, i, R, seen, L1)" by (cases l)
    from b h show "history (snd (snd (snd (snd l')))) = history L"
      unfolding l loop_body_Inr_iff by auto
  qed
  with L' show ?thesis by (cases loc) (simp add: end_episode_def)
qed

lemma episodes_history_length:
  "episodes env rnd n discount_factor alpha k L = Some (Inr L')
   \<Longrightarrow> length (history L') = length (history L) + k"
proof (induction k arbitrary: L)
  case 0
  then show ?case by simp
next
  case (Suc k)
  from Suc.prems obtain L1 where
    e: "episode env rnd n discount_factor alpha L = Some (Inr L1)" and
    r: "episodes env rnd n discount_factor alpha k L1 = Some (Inr L')"
    by (auto split: option.splits sum.splits)
  from Suc.IH [OF r] episode_history_length [OF e] show ?case by simp
qed

subsection \<open>Steps that cannot fail, and termination\<close>










lemma merge_keys_succeeds:
  assumes "\<And>k. k \<in> set ks \<Longrightarrow> k \<in> set (keys Qa) \<and> k \<in> set (keys Qb)"
    and "rows_have_length n Qa" and "rows_have_length n Qb"
  shows "\<exists>Q. merge_keys ks Qa Qb Q0 = Inr Q"
  using assms(1)
proof (induction ks arbitrary: Q0)
  case Nil
  then show ?case by simp
next
  case (Cons key ks)
  from Cons.prems [of key] obtain ra rb where
    ra: "map_of Qa key = Some ra" and rb: "map_of Qb key = Some rb"
    by (auto simp: keys_iff_map_of)
  with assms(2,3) have "length ra = length rb" by (auto simp: rows_have_length_def)
  then have add: "np_add ra rb = Inr (map2 (+) ra rb)" by (rule np_add_same_length)
  from Cons.IH [of "setitem Q0 key (map2 (+) ra rb)"] Cons.prems
  obtain Q where "merge_keys ks Qa Qb (setitem Q0 key (map2 (+) ra rb)) = Inr Q" by auto
  with ra rb add show ?case by (simp add: getitem_def)
qed

lemma merge_tables_succeeds:
  assumes "well_formed n pol"
  shows "\<exists>Q. merge_tables (Q_a pol) (Q_b pol) = Inr Q"
  unfolding merge_tables_def
  using assms
  by (intro merge_keys_succeeds [where n = n])
     (auto simp: well_formed_def key_synchronized_def rows_ok_def)

subsection \<open>Runs on generators that make the same draws\<close>

lemma same_draws_uniform:
  assumes "same_draws S rnd rnd'" and "S g g'"
  shows "\<exists>u g1 g1'. uniform rnd g = (u, g1) \<and> uniform rnd' g' = (u, g1') \<and> S g1 g1'"
  using assms unfolding same_draws_def
  by (metis prod.collapse)

lemma same_draws_randint:
  assumes "same_draws S rnd rnd'" and "S g g'"
  shows "\<exists>c g1 g1'. randint rnd high g = (c, g1) \<and> randint rnd' high g' = (c, g1') \<and> S g1 g1'"
  using assms unfolding same_draws_def
  by (metis prod.collapse)

lemma same_draws_converse: "same_draws S rnd rnd' \<Longrightarrow> same_draws (conversep S) rnd' rnd"
  unfolding same_draws_def by simp

lemma sample_action_bisim:
  assumes "same_draws S rnd rnd'" and "S g g'"
  shows "rel_sum (=) (rel_prod (=) S) (sample_action rnd self obs g) (sample_action rnd' self obs g')"
proof -
  from same_draws_uniform [OF assms] obtain u g1 g1' where
    u: "uniform rnd g = (u, g1)" "uniform rnd' g' = (u, g1')" and S1: "S g1 g1'"
    by blast
  show ?thesis
  proof (cases "getitem (Q_a self) obs")
    case (Inl e)
    then show ?thesis by (simp add: sample_action_def)
  next
    case va: (Inr va)
    show ?thesis
    proof (cases "getitem (Q_b self) obs")
      case (Inl e)
      with va show ?thesis by (simp add: sample_action_def)
    next
      case vb: (Inr vb)
      show ?thesis
      proof (cases "np_add va vb")
        case (Inl e)
        with va vb show ?thesis by (simp add: sample_action_def)
      next
        case av: (Inr av)
        show ?thesis
        proof (cases "u \<le> epsilon self")
          case True
          from same_draws_randint [OF assms(1) S1, of "length av"] obtain c g2 g2' where
            "randint rnd (length av) g1 = (c, g2)" "randint rnd' (length av) g1' = (c, g2')"
            "S g2 g2'" by blast
          with va vb av u True show ?thesis
            by (simp add: sample_action_def random_randint_def)
        next
          case False
          with va vb av u S1 show ?thesis
            by (cases "np_argmax av") (simp_all add: sample_action_def)
        qed
      qed
    qed
  qed
qed

lemma loop_body_bisim:
  assumes "same_draws S rnd rnd'" and "locals_rel S loc loc'"
  shows "rel_sum (=) (rel_prod (locals_rel S) (=))
           (loop_body env rnd n discount_factor alpha loc)
           (loop_body env rnd' n discount_factor alpha loc')"
proof -
  obtain state i R seen L where loc: "loc = (state, i, R, seen, L)" by (cases loc)
  obtain state' i' R' seen' L' where loc': "loc' = (state', i', R', seen', L')" by (cases loc')
  from assms(2) have eq: "state' = state" "i' = i" "R' = R" "seen' = seen"
    and pol: "policy L' = policy L" and env: "env_state L' = env_state L"
    and st: "stats L' = stats L" and hi: "history L' = history L"
    and S0: "S (rng_state L) (rng_state L')"
    by (simp_all add: locals_rel_def loc loc' learner_rel_def visible_def)
  note sa = sample_action_bisim [OF assms(1) S0, of "policy L" state]
  show ?thesis
  proof (cases "sample_action rnd (policy L) state (rng_state L)")
    case (Inl e)
    with sa have "sample_action rnd' (policy L) state (rng_state L') = Inl e"
      by (cases "sample_action rnd' (policy L) state (rng_state L')") simp_all
    with Inl show ?thesis by (simp add: loop_body_def loc loc' eq pol)
  next
    case (Inr p)
    obtain action g1 where p: "p = (action, g1)" by (cases p)
    from sa Inr p obtain g1' where
      sa': "sample_action rnd' (policy L) state (rng_state L') = Inr (action, g1')" and
      S1: "S g1 g1'"
      by (cases "sample_action rnd' (policy L) state (rng_state L')") auto
    obtain next_state reward dn e1 where
      step: "step env (env_state L) action = ((next_state, reward, dn), e1)"
      by (cases "step env (env_state L) action") auto
    from same_draws_randint [OF assms(1) S1, of 2] obtain coin g2 g2' where
      rc: "randint rnd 2 g1 = (coin, g2)" "randint rnd' 2 g1' = (coin, g2')" and S2: "S g2 g2'"
      by blast
    show ?thesis
    proof (cases "td_update n alpha discount_factor coin state action next_state reward
                    (Q_a (policy L)) (Q_b (policy L))")
      case (Inl e)
      with Inr p sa' step rc show ?thesis
        by (simp add: loop_body_def loc loc' eq pol env random_randint_def)
    next
      case td: (Inr q)
      obtain m Qa' Qb' where q: "q = (m, Qa', Qb')" by (cases q)
      from td q Inr p sa' step rc S2 show ?thesis
        by (simp add: loop_body_def loc loc' eq pol env st hi random_randint_def
            locals_rel_def learner_rel_def visible_def)
    qed
  qed
qed

lemma locals_rel_converse: "locals_rel S loc loc' \<Longrightarrow> locals_rel (conversep S) loc' loc"
  by (cases loc; cases loc') (simp add: locals_rel_def learner_rel_def)

lemma while_loop_simulated:
  assumes draws: "same_draws S rnd rnd'"
    and run: "while_loop env rnd n discount_factor alpha loc = Some res"
    and rel: "locals_rel S loc loc'"
  shows "\<exists>res'. while_loop env rnd' n discount_factor alpha loc' = Some res' \<and>
           rel_sum (=) (locals_rel S) res res'"
proof -
  let ?P = "\<lambda>e r k d a l (y :: error + _).
      e = env \<and> r = rnd \<and> k = n \<and> d = discount_factor \<and> a = alpha
      \<longrightarrow> (\<forall>l'. locals_rel S l l' \<longrightarrow>
            (\<exists>res'. while_loop env rnd' n discount_factor alpha l' = Some res' \<and>
               rel_sum (=) (locals_rel S) y res'))"
  have "?P env rnd n discount_factor alpha loc res"
  proof (rule while_loop.raw_induct [where P = ?P, OF _ run])
    fix f e r k d a l y
    assume IH: "\<And>e r k d a l y. f e r k d a l = Some y \<Longrightarrow> ?P e r k d a l y"
      and eq: "(case loop_body e r k d a l of
                  Inl e \<Rightarrow> Some (Inl e)
                | Inr (loc', done) \<Rightarrow> if done then Some (Inr loc') else f e r k d a loc') = Some y"
    show "?P e r k d a l y"
    proof (intro impI allI, elim conjE)
      fix l'
      assume eqs: "e = env" "r = rnd" "k = n" "d = discount_factor" "a = alpha"
        and rel: "locals_rel S l l'"
      note b = loop_body_bisim [OF draws rel, of env n discount_factor alpha]
      show "\<exists>res'. while_loop env rnd' n discount_factor alpha l' = Some res' \<and>
               rel_sum (=) (locals_rel S) y res'"
      proof (cases "loop_body env rnd n discount_factor alpha l")
        case (Inl err)
        with b have "loop_body env rnd' n discount_factor alpha l' = Inl err"
          by (cases "loop_body env rnd' n discount_factor alpha l'") simp_all
        then have "while_loop env rnd' n discount_factor alpha l' = Some (Inl err)"
          by (subst while_loop.simps) simp
        moreover from eq eqs Inl have "y = Inl err" by simp
        ultimately show ?thesis by simp
      next
        case (Inr p)
        obtain l1 dn where p: "p = (l1, dn)" by (cases p)
        from b Inr p obtain l1' where
          b': "loop_body env rnd' n discount_factor alpha l' = Inr (l1', dn)" and
          rel1: "locals_rel S l1 l1'"
          by (cases "loop_body env rnd' n discount_factor alpha l'") auto
        show ?thesis
        proof (cases dn)
          case True
          with b' have "while_loop env rnd' n discount_factor alpha l' = Some (Inr l1')"
            by (subst while_loop.simps) simp
          moreover from eq eqs Inr p True have "y = Inr l1" by simp
          ultimately show ?thesis using rel1 by simp
        next
          case False
          with eq eqs Inr p have "f env rnd n discount_factor alpha l1 = Some y" by simp
          from IH [OF this] rel1 obtain res' where
            "while_loop env rnd' n discount_factor alpha l1' = Some res'"
            "rel_sum (=) (locals_rel S) y res'"
            by blast
          moreover from b' False have "while_loop env rnd' n discount_factor alpha l' =
              while_loop env rnd' n discount_factor alpha l1'"
            by (subst while_loop.simps) simp
          ultimately show ?thesis by simp
        qed
      qed
    qed
  qed
  with rel show ?thesis by blast
qed

lemma while_loop_bisim:
  assumes "same_draws S rnd rnd'" and "locals_rel S loc loc'"
  shows "rel_option (rel_sum (=) (locals_rel S))
           (while_loop env rnd n discount_factor alpha loc)
           (while_loop env rnd' n discount_factor alpha loc')"
proof (cases "while_loop env rnd n discount_factor alpha loc")
  case (Some res)
  from while_loop_simulated [OF assms(1) Some assms(2)] Some show ?thesis by auto
next
  case None
  show ?thesis
  proof (cases "while_loop env rnd' n discount_factor alpha loc'")
    case None': None
    with None show ?thesis by simp
  next
    case (Some res')
    from while_loop_simulated [OF same_draws_converse [OF assms(1)] Some
        locals_rel_converse [OF assms(2)]] None
    show ?thesis by auto
  qed
qed

lemma episode_bisim:
  assumes "same_draws S rnd rnd'" and "learner_rel S L L'"
  shows "rel_option (rel_sum (=) (learner_rel S))
           (episode env rnd n discount_factor alpha L)
           (episode env rnd' n discount_factor alpha L')"
proof -
  from assms(2) have "locals_rel S (begin_episode env n L) (begin_episode env n L')"
    by (auto simp: begin_episode_def locals_rel_def learner_rel_def visible_def
        split: prod.splits)
  note w = while_loop_bisim [OF assms(1) this, of env n discount_factor alpha]
  have fin: "learner_rel S (end_episode l) (end_episode l')" if "locals_rel S l l'" for l l'
    using that
    by (cases l; cases l') (simp add: locals_rel_def learner_rel_def visible_def end_episode_def)
  show ?thesis
  proof (cases "while_loop env rnd n discount_factor alpha (begin_episode env n L)")
    case None
    with w show ?thesis by (simp add: episode_def)
  next
    case (Some res)
    with w obtain res' where
      r': "while_loop env rnd' n discount_factor alpha (begin_episode env n L') = Some res'"
      and rr: "rel_sum (=) (locals_rel S) res res'"
      by (auto simp: option_rel_Some1)
    from rr show ?thesis
      by (cases res; cases res') (simp_all add: episode_def Some r' fin)
  qed
qed

lemma episodes_bisim:
  assumes "same_draws S rnd rnd'"
  shows "learner_rel S L L'
    \<Longrightarrow> rel_option (rel_sum (=) (learner_rel S))
           (episodes env rnd n discount_factor alpha k L)
           (episodes env rnd' n discount_factor alpha k L')"
proof (induction k arbitrary: L L')
  case 0
  then show ?case by simp
next
  case (Suc k)
  note e = episode_bisim [OF assms Suc.prems, of env n discount_factor alpha]
  show ?case
  proof (cases "episode env rnd n discount_factor alpha L")
    case None
    with e show ?thesis by simp
  next
    case (Some res)
    with e obtain res' where
      r': "episode env rnd' n discount_factor alpha L' = Some res'"
      and rr: "rel_sum (=) (learner_rel S) res res'"
      by (auto simp: option_rel_Some1)
    from rr show ?thesis
    proof (cases res)
      case (Inl err)
      with rr have "res' = Inl err" by (cases res') simp_all
      with Inl Some r' show ?thesis by simp
    next
      case (Inr L1)
      with rr obtain L1' where res': "res' = Inr L1'" and "learner_rel S L1 L1'"
        by (cases res') simp_all
      from Suc.IH [OF this(2)] Inr Some r' res' show ?thesis by simp
    qed
  qed
qed

lemma train_bisim:
  assumes "same_draws S rnd rnd'" and "S g0 g0'"
  shows "rel_option (rel_sum (=) (learner_rel S))
     (train env rnd pol num_episodes Qa_arg Qb_arg discount_factor alpha show_episodes e0 g0)
     (train env rnd' pol num_episodes Qa_arg Qb_arg discount_factor alpha show_episodes e0 g0')"
proof (cases "get_num_actions env")
  case (Inl e)
  then show ?thesis by (simp add: train_def)
next
  case (Inr n)
  have "learner_rel S
     \<lparr>policy = bind_tables pol Qa_arg Qb_arg, env_state = e0, rng_state = g0,
       stats = [], history = []\<rparr>
     \<lparr>policy = bind_tables pol Qa_arg Qb_arg, env_state = e0, rng_state = g0',
       stats = [], history = []\<rparr>"
    using assms(2) by (simp add: learner_rel_def visible_def)
  from episodes_bisim [OF assms(1) this] Inr show ?thesis by (simp add: train_def)
qed

subsection \<open>Exceptions of the merge\<close>

lemma np_add_Inl: "np_add a b = Inl e \<Longrightarrow> e = ValueError"
  by (simp add: np_add_def split: if_splits)

lemma merge_keys_missing:
  "k \<in> set ks \<Longrightarrow> k \<notin> set (keys Qb)
   \<Longrightarrow> merge_keys ks Qa Qb Q = Inl KeyError \<or> merge_keys ks Qa Qb Q = Inl ValueError"
proof (induction ks arbitrary: Q)
  case Nil
  then show ?case by simp
next
  case (Cons key ks)
  show ?case
  proof (cases "getitem Qa key")
    case (Inl e)
    then have "e = KeyError" by (simp add: getitem_Inl_iff)
    with Inl show ?thesis by simp
  next
    case ra: (Inr ra)
    show ?thesis
    proof (cases "getitem Qb key")
      case (Inl e)
      then have "e = KeyError" by (simp add: getitem_Inl_iff)
      with ra Inl show ?thesis by simp
    next
      case rb: (Inr rb)
      then have "key \<in> set (keys Qb)" by (simp add: getitem_Inr_iff keys_iff_map_of)
      with Cons.prems have k: "k \<in> set ks" by auto
      show ?thesis
      proof (cases "np_add ra rb")
        case (Inl e)
        with ra rb np_add_Inl [OF Inl] show ?thesis by simp
      next
        case (Inr r)
        with ra rb Cons.IH [OF k Cons.prems(2), of "setitem Q key r"] show ?thesis by simp
      qed
    qed
  qed
qed

lemma train_preseeded_example:
  "train bandit_env counter_random empty_policy 1 (Some [(5, [0, 0])]) None 1 (1 / 2) True 0 0
     = Some (Inr unsynced_learner)"
  by code_simp

subsection \<open>The statistics against the environment\<close>



lemma length_replay: "length (fst (replay env e actions)) = length actions"
  by (induction actions arbitrary: e) (simp_all add: case_prod_beta)








lemma train_loop_env_once:
  "train loop_env counter_random exploring_policy 1 None None 1 (1 / 2) True 0 0
     = Some (Inr explored_learner)"
  by code_simp


lemma double_q_learning_loop_env_once:
  "double_q_learning loop_env counter_random exploring_policy 1 None None 1 (1 / 2) True 0 0
     = Some (Inr ([(0, [3 / 2, 11 / 2]), (1, [0, 0])], [2], [14]))"
  by code_simp





lemma merge_tables_sums:
  assumes mg: "merge_tables Qa Qb = Inr Q"
    and rows: "rows_have_length n Qa" "rows_have_length n Qb"
  shows "set (keys Q) = set (keys Qa) \<and>
         (\<forall>s \<in> set (keys Qa). \<exists>ra rb rq.
            map_of Qa s = Some ra \<and> map_of Qb s = Some rb \<and> map_of Q s = Some rq \<and>
            length ra = n \<and> length rb = n \<and> length rq = n \<and>
            (\<forall>a < n. rq ! a = ra ! a + rb ! a))"
proof -
  note m = merge_tables_Inr [OF mg]
  have "\<exists>ra rb rq.
          map_of Qa s = Some ra \<and> map_of Qb s = Some rb \<and> map_of Q s = Some rq \<and>
          length ra = n \<and> length rb = n \<and> length rq = n \<and>
          (\<forall>a < n. rq ! a = ra ! a + rb ! a)"
    if "s \<in> set (keys Qa)" for s
  proof -
    from m that obtain ra rb rq where
      ra: "map_of Qa s = Some ra" and rb: "map_of Qb s = Some rb" and
      add: "np_add ra rb = Inr rq" and rq: "map_of Q s = Some rq"
      by blast
    from rows ra rb have len: "length ra = n" "length rb = n"
      by (auto simp: rows_have_length_def)
    with add have "rq = map2 (+) ra rb" by (simp add: np_add_def)
    with len ra rb rq show ?thesis by simp
  qed
  with m show ?thesis by blast
qed

section \<open>The properties\<close>

subsection \<open>The policy\<close>

text \<open>
  C5. For a state present in both tables, with rows of one length that is not zero,
  \<open>sample_action\<close> works on the element-wise sum of the two rows. When the uniform
  draw is at most \<open>epsilon\<close> the action is the generator's integer draw below the
  length of the sum, which lies in \<open>0 .. length - 1\<close>; otherwise the action is the
  lowest index among the largest entries of the sum. That the integer draw is
  uniform is a property of the generator, which enters here through its range only.
\<close>

theorem sample_action_epsilon_greedy:
  assumes "map_of (Q_a self) obs = Some va" and "map_of (Q_b self) obs = Some vb"
    and "length va = length vb" and "va \<noteq> []"
    and "\<And>h g'. 0 < h \<Longrightarrow> fst (randint rnd h g') < h"
  shows "\<exists>combined u g1.
           length combined = length va \<and>
           (\<forall>k < length va. combined ! k = va ! k + vb ! k) \<and>
           uniform rnd g = (u, g1) \<and>
           (if u \<le> epsilon self
            then sample_action rnd self obs g = Inr (randint rnd (length combined) g1) \<and>
                 fst (randint rnd (length combined) g1) \<in> {0 ..< length combined}
            else \<exists>action. sample_action rnd self obs g = Inr (action, g1) \<and>
                 first_max combined action)"
proof -
  let ?c = "map2 (+) va vb"
  obtain u g1 where u: "uniform rnd g = (u, g1)" by (cases "uniform rnd g")
  have len: "length ?c = length va" using assms(3) by simp
  have pos: "0 < length ?c" using assms(3,4) by (cases va; cases vb) simp_all
  have elems: "\<forall>k < length va. ?c ! k = va ! k + vb ! k" using assms(3) by simp
  have sa: "sample_action rnd self obs g =
      (if u \<le> epsilon self then random_randint rnd (length ?c) g1
       else bind_err (np_argmax ?c) (\<lambda>action. Inr (action, g1)))"
    using assms(1,2,3) u
    by (simp add: sample_action_def getitem_def np_add_same_length del: length_map length_zip)
  show ?thesis
  proof (cases "u \<le> epsilon self")
    case True
    have "sample_action rnd self obs g = Inr (randint rnd (length ?c) g1)"
      using sa True pos by (simp add: random_randint_def del: length_map length_zip)
    moreover have "fst (randint rnd (length ?c) g1) \<in> {0 ..< length ?c}"
      using assms(5) [OF pos] by simp
    ultimately show ?thesis using len elems u True by (intro exI [of _ ?c] exI [of _ u] exI [of _ g1]) simp
  next
    case False
    from pos obtain m where m: "np_argmax ?c = Inr m"
      using np_argmax_nonempty [of ?c] by auto
    then have "sample_action rnd self obs g = Inr (m, g1)" using sa False by simp
    moreover have "first_max ?c m" using m by (rule np_argmax_first_max)
    ultimately show ?thesis using len elems u False
      by (intro exI [of _ ?c] exI [of _ u] exI [of _ g1]) auto
  qed
qed

theorem sample_action_epsilon_greedy_witness:
  "map_of (Q_a tied_policy) 0 = Some [1, 3, 2] \<and> map_of (Q_b tied_policy) 0 = Some [2, 0, 1] \<and>
   sample_action counter_random tied_policy 0 0 = Inr (0, 1) \<and>
   (\<exists>combined u g1.
      length combined = length [1, 3, 2 :: real] \<and>
      (\<forall>k < length [1, 3, 2 :: real]. combined ! k = [1, 3, 2] ! k + [2, 0, 1] ! k) \<and>
      uniform counter_random (0::nat) = (u, g1) \<and>
      (if u \<le> epsilon tied_policy
       then sample_action counter_random tied_policy 0 0
              = Inr (randint counter_random (length combined) g1) \<and>
            fst (randint counter_random (length combined) g1) \<in> {0 ..< length combined}
       else \<exists>action. sample_action counter_random tied_policy 0 0 = Inr (action, g1) \<and>
            first_max combined action))"
proof -
  have h1: "map_of (Q_a tied_policy) 0 = Some [1, 3, 2]" by (simp add: tied_policy_def)
  have h2: "map_of (Q_b tied_policy) 0 = Some [2, 0, 1]" by (simp add: tied_policy_def)
  have h3: "length [1, 3, 2 :: real] = length [2, 0, 1 :: real]" by simp
  have h4: "[1, 3, 2 :: real] \<noteq> []" by simp
  have h5: "\<And>h g'. 0 < h \<Longrightarrow> fst (randint counter_random h g') < h"
    by (simp add: counter_random_def)
  have r: "sample_action counter_random tied_policy 0 0 = Inr (0, 1)" by code_simp
  note c = sample_action_epsilon_greedy [of tied_policy 0 "[1, 3, 2]" "[2, 0, 1]" counter_random 0,
      OF h1 h2 h3 h4 h5]
  from h1 h2 r c show ?thesis by (intro conjI)
qed

subsection \<open>The update rule\<close>



text \<open>
  C2, as the code has it. The claim says \<open>max_action\<close> always comes from the table
  that is not updated. Here the coin shows heads, \<open>Q_a\<close> is the table updated, and
  \<open>max_action\<close> is 1, the first maximum of \<open>Q_a\<close>'s own row \<open>[0, 5]\<close>; the row
  \<open>[7, 1]\<close> of \<open>Q_b\<close> has its maximum at 0 and only supplies the value 1 at index 1.
\<close>

theorem max_action_counterexample:
  "td_update 2 (1 / 2) 1 1 (0::nat) 0 1 1 [(0, [0, 0]), (1, [0, 5])] [(0, [0, 0]), (1, [7, 1])]
     = Inr (1, [(0, [1, 0]), (1, [0, 5])], [(0, [0, 0]), (1, [7, 1])])
   \<and> np_argmax [0, 5] = Inr 1 \<and> np_argmax [7, 1] = Inr 0"
  by code_simp

text \<open>
  C2, amended. Whichever table is updated in a step, \<open>max_action\<close> is the first
  maximum of that same table's row for the next state; the other table is not
  updated in that step, it only gains the row of the next state when it has none.
\<close>

theorem max_action_from_updated_table:
  assumes "td_update n alpha discount_factor coin s a s' r Qa Qb = Inr (m, Qa', Qb')"
  shows "if coin \<noteq> 0
         then first_max (row_or_zeros Qa s' n) m \<and>
              map_of Qb' = (map_of Qb)(s' \<mapsto> row_or_zeros Qb s' n)
         else first_max (row_or_zeros Qb s' n) m \<and>
              map_of Qa' = (map_of Qa)(s' \<mapsto> row_or_zeros Qa s' n)"
proof (cases "coin = 0")
  case True
  with assms show ?thesis
    by (auto simp: td_update_tails map_of_setdefault_zeros dest: np_argmax_first_max)
next
  case False
  with assms show ?thesis
    by (auto simp: td_update_heads map_of_setdefault_zeros dest: np_argmax_first_max)
qed

theorem max_action_from_updated_table_witness:
  "td_update 2 (1 / 2) 1 1 (0::nat) 0 1 1 [(0, [0, 0]), (1, [0, 5])] [(0, [0, 0]), (1, [7, 1])]
     = Inr (1, [(0, [1, 0]), (1, [0, 5])], [(0, [0, 0]), (1, [7, 1])])
   \<and> first_max [0, 5] 1"
proof -
  have h: "td_update 2 (1 / 2) 1 1 (0::nat) 0 1 1 [(0, [0, 0]), (1, [0, 5])] [(0, [0, 0]), (1, [7, 1])]
     = Inr (1, [(0, [1, 0]), (1, [0, 5])], [(0, [0, 0]), (1, [7, 1])])"
    by code_simp
  from max_action_from_updated_table [OF h] h show ?thesis
    by (simp add: row_or_zeros_def)
qed

subsection \<open>Episode start and lazy insertion\<close>

text \<open>
  C6. The start of an episode stores zero rows of length \<open>num_actions\<close> for the state
  that \<open>reset\<close> returns in both tables, whatever was stored there before. A next
  state other than the current state is handled differently by the update: a table
  that has a row for it keeps that row, and a table that has none gets a zero row.
\<close>

theorem start_overwrites_next_state_defaults:
  "(\<forall>state i R seen L'.
      begin_episode env n L = (state, i, R, seen, L') \<longrightarrow>
        state = fst (reset env (env_state L)) \<and>
        map_of (Q_a (policy L')) state = Some (np_zeros n) \<and>
        map_of (Q_b (policy L')) state = Some (np_zeros n)) \<and>
   (\<forall>m Qa' Qb'.
      td_update n alpha discount_factor coin s a s' r Qa Qb = Inr (m, Qa', Qb') \<and> s' \<noteq> s \<longrightarrow>
        map_of Qa' s' = Some (case map_of Qa s' of None \<Rightarrow> np_zeros n | Some row \<Rightarrow> row) \<and>
        map_of Qb' s' = Some (case map_of Qb s' of None \<Rightarrow> np_zeros n | Some row \<Rightarrow> row))"
proof (intro conjI allI impI)
  fix m Qa' Qb'
  assume "td_update n alpha discount_factor coin s a s' r Qa Qb = Inr (m, Qa', Qb') \<and> s' \<noteq> s"
  then have t: "td_update n alpha discount_factor coin s a s' r Qa Qb = Inr (m, Qa', Qb')"
    and ne: "s' \<noteq> s" by simp_all
  have "map_of Qa' s' = Some (row_or_zeros Qa s' n) \<and> map_of Qb' s' = Some (row_or_zeros Qb s' n)"
  proof (cases "coin = 0")
    case True
    with t ne show ?thesis
      by (auto simp: td_update_tails map_of_setdefault_zeros map_of_setitem)
  next
    case False
    with t ne show ?thesis
      by (auto simp: td_update_heads map_of_setdefault_zeros map_of_setitem)
  qed
  then show "map_of Qa' s' = Some (case map_of Qa s' of None \<Rightarrow> np_zeros n | Some row \<Rightarrow> row)"
    and "map_of Qb' s' = Some (case map_of Qb s' of None \<Rightarrow> np_zeros n | Some row \<Rightarrow> row)"
    by (simp_all add: row_or_zeros_def)
qed (auto simp: begin_episode_def map_of_setitem split: prod.splits)

theorem start_overwrites_next_state_defaults_witness:
  "begin_episode bandit_env 2 seeded_learner = (0, 0, 0, [], reset_learner) \<and>
   map_of (Q_a (policy seeded_learner)) 0 = Some [7, 7] \<and>
   map_of (Q_a (policy reset_learner)) 0 = Some (np_zeros 2) \<and>
   map_of (Q_b (policy reset_learner)) 0 = Some (np_zeros 2) \<and>
   td_update 2 (1 / 2) 1 1 (0::nat) 0 1 1 [(0, [0, 0]), (1, [4, 2])] [(0, [0, 0])]
     = Inr (0, [(0, [1 / 2, 0]), (1, [4, 2])], [(0, [0, 0]), (1, [0, 0])]) \<and>
   map_of [(0::nat, [1 / 2, 0]), (1, [4, 2])] 1 = Some [4, 2] \<and>
   map_of [(0::nat, [0, 0]), (1, [0, 0])] 1 = Some (np_zeros 2)"
proof -
  have b: "begin_episode bandit_env 2 seeded_learner = (0, 0, 0, [], reset_learner)"
    by (simp add: begin_episode_def bandit_env_def seeded_learner_def reset_learner_def
        setitem_def np_zeros_def numeral_2_eq_2)
  have t: "td_update 2 (1 / 2) 1 1 (0::nat) 0 1 1 [(0, [0, 0]), (1, [4, 2])] [(0, [0, 0])]
     = Inr (0, [(0, [1 / 2, 0]), (1, [4, 2])], [(0, [0, 0]), (1, [0, 0])])"
    by code_simp
  note th = start_overwrites_next_state_defaults
    [of bandit_env 2 seeded_learner "1 / 2" 1 1 "0::nat" 0 1 1 "[(0, [0, 0]), (1, [4, 2])]" "[(0, [0, 0])]"]
  from th b have c1: "map_of (Q_a (policy reset_learner)) 0 = Some (np_zeros 2) \<and>
      map_of (Q_b (policy reset_learner)) 0 = Some (np_zeros 2)"
    by blast
  from th t have c2: "map_of [(0::nat, [1 / 2, 0]), (1, [4, 2])] 1 = Some [4, 2] \<and>
      map_of [(0::nat, [0, 0]), (1, [0, 0])] 1 = Some (np_zeros 2)"
    by simp
  have s: "map_of (Q_a (policy seeded_learner)) 0 = Some [7, 7]"
    by (simp add: seeded_learner_def)
  from b s c1 t c2 show ?thesis by simp
qed

subsection \<open>Key synchronization\<close>

text \<open>
  C3. From tables with the same keys, any number of episode starts and passes of
  the loop body leave tables with the same keys; in particular the tables that
  training hands to the merge step have the same keys when the tables it started
  from had (empty tables among them).
\<close>

theorem key_synchronization:
  "(key_synchronized (policy L0) \<and> visited env rnd n discount_factor alpha L0 L
      \<longrightarrow> key_synchronized (policy L)) \<and>
   (key_synchronized (bind_tables pol Qa_arg Qb_arg) \<and>
    train env rnd pol num_episodes Qa_arg Qb_arg discount_factor alpha show_episodes e0 g0
      = Some (Inr L')
      \<longrightarrow> key_synchronized (policy L'))"
proof (intro conjI impI)
  assume "key_synchronized (policy L0) \<and> visited env rnd n discount_factor alpha L0 L"
  then show "key_synchronized (policy L)" by (blast intro: visited_key_synchronized)
next
  assume a: "key_synchronized (bind_tables pol Qa_arg Qb_arg) \<and>
    train env rnd pol num_episodes Qa_arg Qb_arg discount_factor alpha show_episodes e0 g0
      = Some (Inr L')"
  then obtain k where "episodes env rnd k discount_factor alpha (nat num_episodes)
        \<lparr>policy = bind_tables pol Qa_arg Qb_arg, env_state = e0, rng_state = g0,
         stats = [], history = []\<rparr> = Some (Inr L')"
    unfolding train_Inr_iff by blast
  from episodes_key_synchronized [OF this] a show "key_synchronized (policy L')" by simp
qed

theorem key_synchronization_witness:
  "key_synchronized (policy reset_learner) \<and>
   visited bandit_env counter_random 2 1 (1 / 2) reset_learner stepped_learner \<and>
   key_synchronized (policy stepped_learner) \<and>
   key_synchronized (bind_tables empty_policy None None) \<and>
   train bandit_env counter_random empty_policy 2 None None 1 (1 / 2) True 0 0
     = Some (Inr trained_learner) \<and>
   key_synchronized (policy trained_learner)"
proof -
  have k0: "key_synchronized (policy reset_learner)"
    by (simp add: key_synchronized_def reset_learner_def keys_def)
  have v: "visited bandit_env counter_random 2 1 (1 / 2) reset_learner stepped_learner"
    by (rule visited.stepped [OF visited.initial loop_body_example])
  have e: "key_synchronized (bind_tables empty_policy None None)"
    by (simp add: key_synchronized_def bind_tables_def empty_policy_def keys_def)
  note th = key_synchronization [of reset_learner bandit_env counter_random 2 1 "1 / 2"
      stepped_learner empty_policy None None 2 True 0 0 trained_learner]
  from th k0 v have k1: "key_synchronized (policy stepped_learner)" by blast
  from th e train_example have k2: "key_synchronized (policy trained_learner)" by blast
  from k0 v k1 e train_example k2 show ?thesis by (intro conjI)
qed

subsection \<open>The merged table\<close>

text \<open>
  C4. The merged table is the element-wise sum of the final tables. For tables that
  start with rows of length \<open>num_actions\<close>: whenever the training function returns,
  the merged table has the keys of the final \<open>Q_a\<close> and, for each of them and every
  action index, its entry is the sum of the entries of the final \<open>Q_a\<close> and \<open>Q_b\<close>;
  and whenever training finishes, with one episode or more and tables that started
  with the same keys, the training function does return such a table, next to the
  statistics.
\<close>

theorem merged_table_is_sum:
  assumes "get_num_actions env = Inr n"
    and "rows_ok n (bind_tables pol Qa_arg Qb_arg)"
  shows "(\<forall>Q lens rets.
            double_q_learning env rnd pol num_episodes Qa_arg Qb_arg discount_factor alpha
              show_episodes e0 g0 = Some (Inr (Q, lens, rets)) \<longrightarrow>
            (\<exists>L. train env rnd pol num_episodes Qa_arg Qb_arg discount_factor alpha
                    show_episodes e0 g0 = Some (Inr L) \<and>
                  set (keys Q) = set (keys (Q_a (policy L))) \<and>
                  (\<forall>s \<in> set (keys (Q_a (policy L))). \<exists>ra rb rq.
                     map_of (Q_a (policy L)) s = Some ra \<and>
                     map_of (Q_b (policy L)) s = Some rb \<and>
                     map_of Q s = Some rq \<and>
                     length ra = n \<and> length rb = n \<and> length rq = n \<and>
                     (\<forall>a < n. rq ! a = ra ! a + rb ! a)))) \<and>
         (\<forall>L. train env rnd pol num_episodes Qa_arg Qb_arg discount_factor alpha
                 show_episodes e0 g0 = Some (Inr L) \<and>
               1 \<le> num_episodes \<and> key_synchronized (bind_tables pol Qa_arg Qb_arg) \<longrightarrow>
            (\<exists>Q. double_q_learning env rnd pol num_episodes Qa_arg Qb_arg discount_factor alpha
                    show_episodes e0 g0
                    = Some (Inr (Q, map fst (stats L), map snd (stats L))) \<and>
                 set (keys Q) = set (keys (Q_a (policy L))) \<and>
                 (\<forall>s \<in> set (keys (Q_a (policy L))). \<exists>ra rb rq.
                    map_of (Q_a (policy L)) s = Some ra \<and>
                    map_of (Q_b (policy L)) s = Some rb \<and>
                    map_of Q s = Some rq \<and>
                    length ra = n \<and> length rb = n \<and> length rq = n \<and>
                    (\<forall>a < n. rq ! a = ra ! a + rb ! a))))"
proof (intro conjI allI impI)
  fix Q lens rets
  assume "double_q_learning env rnd pol num_episodes Qa_arg Qb_arg discount_factor alpha
              show_episodes e0 g0 = Some (Inr (Q, lens, rets))"
  then obtain L where
    tr: "train env rnd pol num_episodes Qa_arg Qb_arg discount_factor alpha show_episodes e0 g0
           = Some (Inr L)" and
    mg: "merge_tables (Q_a (policy L)) (Q_b (policy L)) = Inr Q"
    unfolding double_q_learning_Inr_iff by blast
  from tr assms(1) have "episodes env rnd n discount_factor alpha (nat num_episodes)
        \<lparr>policy = bind_tables pol Qa_arg Qb_arg, env_state = e0, rng_state = g0,
         stats = [], history = []\<rparr> = Some (Inr L)"
    unfolding train_Inr_iff by simp
  from episodes_rows [OF this] assms(2) have "rows_ok n (policy L)" by simp
  then have "rows_have_length n (Q_a (policy L))" "rows_have_length n (Q_b (policy L))"
    by (simp_all add: rows_ok_def)
  from merge_tables_sums [OF mg this] tr
  show "\<exists>L. train env rnd pol num_episodes Qa_arg Qb_arg discount_factor alpha
                    show_episodes e0 g0 = Some (Inr L) \<and>
                  set (keys Q) = set (keys (Q_a (policy L))) \<and>
                  (\<forall>s \<in> set (keys (Q_a (policy L))). \<exists>ra rb rq.
                     map_of (Q_a (policy L)) s = Some ra \<and>
                     map_of (Q_b (policy L)) s = Some rb \<and>
                     map_of Q s = Some rq \<and>
                     length ra = n \<and> length rb = n \<and> length rq = n \<and>
                     (\<forall>a < n. rq ! a = ra ! a + rb ! a))"
    by blast
next
  fix L
  assume a: "train env rnd pol num_episodes Qa_arg Qb_arg discount_factor alpha
                 show_episodes e0 g0 = Some (Inr L) \<and>
               1 \<le> num_episodes \<and> key_synchronized (bind_tables pol Qa_arg Qb_arg)"
  then have tr: "train env rnd pol num_episodes Qa_arg Qb_arg discount_factor alpha
                 show_episodes e0 g0 = Some (Inr L)"
    and one: "1 \<le> num_episodes"
    and ks: "key_synchronized (bind_tables pol Qa_arg Qb_arg)"
    by simp_all
  let ?L0 = "\<lparr>policy = bind_tables pol Qa_arg Qb_arg, env_state = e0, rng_state = g0,
         stats = [], history = []\<rparr>"
  from tr assms(1) have ep: "episodes env rnd n discount_factor alpha (nat num_episodes) ?L0
      = Some (Inr L)"
    unfolding train_Inr_iff by simp
  from episodes_rows [OF ep] assms(2) have rows: "rows_ok n (policy L)" by simp
  from episodes_key_synchronized [OF ep] ks have "key_synchronized (policy L)" by simp
  with rows have "well_formed n (policy L)" by (simp add: well_formed_def)
  from merge_tables_succeeds [OF this] obtain Q where
    mg: "merge_tables (Q_a (policy L)) (Q_b (policy L)) = Inr Q" by blast
  from episodes_stats_history [OF ep] episodes_history_length [OF ep] one
  have "stats L \<noteq> []" by auto
  with tr mg have ret: "double_q_learning env rnd pol num_episodes Qa_arg Qb_arg discount_factor
      alpha show_episodes e0 g0 = Some (Inr (Q, map fst (stats L), map snd (stats L)))"
    unfolding double_q_learning_Inr_iff by blast
  from rows have "rows_have_length n (Q_a (policy L))" "rows_have_length n (Q_b (policy L))"
    by (simp_all add: rows_ok_def)
  from merge_tables_sums [OF mg this] ret
  show "\<exists>Q. double_q_learning env rnd pol num_episodes Qa_arg Qb_arg discount_factor alpha
                    show_episodes e0 g0
                    = Some (Inr (Q, map fst (stats L), map snd (stats L))) \<and>
                 set (keys Q) = set (keys (Q_a (policy L))) \<and>
                 (\<forall>s \<in> set (keys (Q_a (policy L))). \<exists>ra rb rq.
                    map_of (Q_a (policy L)) s = Some ra \<and>
                    map_of (Q_b (policy L)) s = Some rb \<and>
                    map_of Q s = Some rq \<and>
                    length ra = n \<and> length rb = n \<and> length rq = n \<and>
                    (\<forall>a < n. rq ! a = ra ! a + rb ! a))"
    by blast
qed

theorem merged_table_is_sum_witness:
  "get_num_actions loop_env = Inr 2 \<and>
   rows_ok 2 (bind_tables exploring_policy None None) \<and>
   key_synchronized (bind_tables exploring_policy None None) \<and> (1::int) \<le> 1 \<and>
   train loop_env counter_random exploring_policy 1 None None 1 (1 / 2) True 0 0
     = Some (Inr explored_learner) \<and>
   double_q_learning loop_env counter_random exploring_policy 1 None None 1 (1 / 2) True 0 0
     = Some (Inr ([(0, [3 / 2, 11 / 2]), (1, [0, 0])], [2], [14])) \<and>
   map_of (Q_a (policy explored_learner)) 0 = Some [3 / 2, 0] \<and>
   map_of (Q_b (policy explored_learner)) 0 = Some [0, 11 / 2] \<and>
   (\<exists>L. train loop_env counter_random exploring_policy 1 None None 1 (1 / 2) True 0 0
           = Some (Inr L) \<and>
         set (keys [(0 :: nat, [3 / 2, 11 / 2]), (1, [0, 0])]) = set (keys (Q_a (policy L))) \<and>
         (\<forall>s \<in> set (keys (Q_a (policy L))). \<exists>ra rb rq.
            map_of (Q_a (policy L)) s = Some ra \<and>
            map_of (Q_b (policy L)) s = Some rb \<and>
            map_of [(0 :: nat, [3 / 2, 11 / 2]), (1, [0, 0])] s = Some rq \<and>
            length ra = 2 \<and> length rb = 2 \<and> length rq = 2 \<and>
            (\<forall>a < 2. rq ! a = ra ! a + rb ! a))) \<and>
   (\<exists>Q. double_q_learning loop_env counter_random exploring_policy 1 None None 1 (1 / 2) True 0 0
           = Some (Inr (Q, map fst (stats explored_learner), map snd (stats explored_learner))) \<and>
        set (keys Q) = set (keys (Q_a (policy explored_learner))) \<and>
        (\<forall>s \<in> set (keys (Q_a (policy explored_learner))). \<exists>ra rb rq.
           map_of (Q_a (policy explored_learner)) s = Some ra \<and>
           map_of (Q_b (policy explored_learner)) s = Some rb \<and>
           map_of Q s = Some rq \<and>
           length ra = 2 \<and> length rb = 2 \<and> length rq = 2 \<and>
           (\<forall>a < 2. rq ! a = ra ! a + rb ! a)))"
proof -
  have n: "get_num_actions loop_env = Inr 2"
    by (simp add: get_num_actions_def loop_env_def)
  have r: "rows_ok 2 (bind_tables exploring_policy None None)"
    by (simp add: rows_ok_def rows_have_length_def bind_tables_def exploring_policy_def)
  have k: "key_synchronized (bind_tables exploring_policy None None)"
    by (simp add: key_synchronized_def bind_tables_def exploring_policy_def)
  have one: "(1::int) \<le> 1" by simp
  have qa: "map_of (Q_a (policy explored_learner)) 0 = Some [3 / 2, 0]"
    and qb: "map_of (Q_b (policy explored_learner)) 0 = Some [0, 11 / 2]"
    by (simp_all add: explored_learner_def)
  note th = merged_table_is_sum [OF n r, of counter_random 1 1 "1 / 2" True 0 0]
  from th double_q_learning_loop_env_once have c1:
    "\<exists>L. train loop_env counter_random exploring_policy 1 None None 1 (1 / 2) True 0 0
           = Some (Inr L) \<and>
         set (keys [(0 :: nat, [3 / 2, 11 / 2]), (1, [0, 0])]) = set (keys (Q_a (policy L))) \<and>
         (\<forall>s \<in> set (keys (Q_a (policy L))). \<exists>ra rb rq.
            map_of (Q_a (policy L)) s = Some ra \<and>
            map_of (Q_b (policy L)) s = Some rb \<and>
            map_of [(0 :: nat, [3 / 2, 11 / 2]), (1, [0, 0])] s = Some rq \<and>
            length ra = 2 \<and> length rb = 2 \<and> length rq = 2 \<and>
            (\<forall>a < 2. rq ! a = ra ! a + rb ! a))"
    by blast
  from th train_loop_env_once one k have c2:
    "\<exists>Q. double_q_learning loop_env counter_random exploring_policy 1 None None 1 (1 / 2) True 0 0
           = Some (Inr (Q, map fst (stats explored_learner), map snd (stats explored_learner))) \<and>
        set (keys Q) = set (keys (Q_a (policy explored_learner))) \<and>
        (\<forall>s \<in> set (keys (Q_a (policy explored_learner))). \<exists>ra rb rq.
           map_of (Q_a (policy explored_learner)) s = Some ra \<and>
           map_of (Q_b (policy explored_learner)) s = Some rb \<and>
           map_of Q s = Some rq \<and>
           length ra = 2 \<and> length rb = 2 \<and> length rq = 2 \<and>
           (\<forall>a < 2. rq ! a = ra ! a + rb ! a))"
    by blast
  from n r k one train_loop_env_once double_q_learning_loop_env_once qa qb c1 c2
  show ?thesis by (intro conjI)
qed

subsection \<open>The statistics\<close>



subsection \<open>Determinism\<close>

text \<open>
  C8. Two runs with the same environment, environment state, policy, tables and
  hyperparameters, on random sources that make the same draws (as one source does
  from one seed), give the same result: the same merged table and statistics, or
  the same exception, or both do not return; and training ends in the same tables,
  statistics and history, which holds the action and both tables after every step
  of every episode.
\<close>

theorem determined_by_draws:
  assumes "same_draws S rnd rnd'" and "S g0 g0'"
  shows "double_q_learning env rnd pol num_episodes Qa_arg Qb_arg discount_factor alpha
           show_episodes e0 g0
         = double_q_learning env rnd' pol num_episodes Qa_arg Qb_arg discount_factor alpha
             show_episodes e0 g0' \<and>
         map_option (map_sum id visible)
           (train env rnd pol num_episodes Qa_arg Qb_arg discount_factor alpha show_episodes e0 g0)
         = map_option (map_sum id visible)
             (train env rnd' pol num_episodes Qa_arg Qb_arg discount_factor alpha
                show_episodes e0 g0')"
proof -
  note t = train_bisim [OF assms, of env pol num_episodes Qa_arg Qb_arg discount_factor alpha
      show_episodes e0]
  let ?t = "train env rnd pol num_episodes Qa_arg Qb_arg discount_factor alpha show_episodes e0 g0"
  let ?t' = "train env rnd' pol num_episodes Qa_arg Qb_arg discount_factor alpha show_episodes e0 g0'"
  show ?thesis
  proof (cases ?t)
    case None
    with t have "?t' = None" by simp
    with None show ?thesis by (simp add: double_q_learning_def)
  next
    case (Some res)
    with t obtain res' where r': "?t' = Some res'" and rr: "rel_sum (=) (learner_rel S) res res'"
      by (auto simp: option_rel_Some1)
    show ?thesis
    proof (cases res)
      case (Inl err)
      with rr have "res' = Inl err" by (cases res') simp_all
      with Inl Some r' show ?thesis by (simp add: double_q_learning_def)
    next
      case (Inr L)
      with rr obtain L' where res': "res' = Inr L'" and "learner_rel S L L'"
        by (cases res') simp_all
      then have "visible L = visible L'" by (simp add: learner_rel_def)
      then have "policy L = policy L'" "stats L = stats L'" by (simp_all add: visible_def)
      with \<open>visible L = visible L'\<close> Inr Some r' res' show ?thesis
        by (simp add: double_q_learning_def)
    qed
  qed
qed

theorem determined_by_draws_witness:
  "same_draws same_count counter_random int_random \<and> same_count 0 0 \<and>
   double_q_learning bandit_env counter_random empty_policy 2 None None 1 (1 / 2) True 0 0
     = double_q_learning bandit_env int_random empty_policy 2 None None 1 (1 / 2) True 0 0 \<and>
   map_option (map_sum id visible)
     (train bandit_env counter_random empty_policy 2 None None 1 (1 / 2) True 0 0)
     = map_option (map_sum id visible)
         (train bandit_env int_random empty_policy 2 None None 1 (1 / 2) True 0 0)"
proof -
  have d: "same_draws same_count counter_random int_random"
    by (simp add: same_draws_def same_count_def counter_random_def int_random_def)
  have s: "same_count 0 0" by (simp add: same_count_def)
  from d s determined_by_draws [OF d s, of bandit_env empty_policy 2 None None 1 "1 / 2" True 0]
  show ?thesis by (intro conjI) simp_all
qed

subsection \<open>No episodes\<close>

lemma train_zero:
  "train env rnd pol 0 Qa_arg Qb_arg discount_factor alpha show_episodes e0 g0 =
     (case get_num_actions env of
        Inl e \<Rightarrow> Some (Inl e)
      | Inr n \<Rightarrow> Some (Inr \<lparr>policy = bind_tables pol Qa_arg Qb_arg, env_state = e0,
                            rng_state = g0, stats = [], history = []\<rparr>))"
  by (simp add: train_def episode_range_def split: sum.splits)

text \<open>
  C10. Called with \<open>num_episodes = 0\<close> the training function does not return a merged
  table and statistics: it returns an exception. When the number of actions can be
  read from the environment the loop body never runs, \<open>stats\<close> stays empty and
  unpacking \<^verbatim>\<open>zip(*stats)\<close> raises \<^verbatim>\<open>ValueError\<close>; otherwise the attribute lookup
  has already raised.
\<close>

theorem zero_episodes_raises:
  "double_q_learning env rnd pol 0 Qa_arg Qb_arg discount_factor alpha show_episodes e0 g0 =
     Some (Inl (case get_num_actions env of Inl e \<Rightarrow> e | Inr n \<Rightarrow> ValueError))"
  by (simp add: double_q_learning_def train_zero unzip_stats_def split: sum.splits)

subsection \<open>The merge with a key missing from \<open>Q_b\<close>\<close>

text \<open>
  C9, as the code has it. The claim says the merge does not fail when a key of \<open>Q_a\<close>
  is missing from \<open>Q_b\<close>. The code indexes \<open>Q_b\<close> with every key of \<open>Q_a\<close> and has
  no default: with tables that the caller seeded with different keys the whole call
  ends in \<^verbatim>\<open>KeyError\<close>.
\<close>

theorem merge_preseeded_counterexample:
  "double_q_learning bandit_env counter_random empty_policy 1 (Some [(5, [0, 0])]) None
     1 (1 / 2) True 0 0 = Some (Inl KeyError)"
  by code_simp

text \<open>
  C9, amended. If at merge time some state is a key of \<open>Q_a\<close> and not of \<open>Q_b\<close>, the
  merge step raises an exception, \<^verbatim>\<open>KeyError\<close> from indexing \<open>Q_b\<close> unless an
  earlier key has already raised \<^verbatim>\<open>KeyError\<close> or \<^verbatim>\<open>ValueError\<close>, and the training
  function ends in an exception instead of returning a merged table.
\<close>

theorem merge_fails_on_missing_key:
  assumes "k \<in> set (keys (Q_a (policy L)))" and "k \<notin> set (keys (Q_b (policy L)))"
  shows "(merge_tables (Q_a (policy L)) (Q_b (policy L)) = Inl KeyError \<or>
          merge_tables (Q_a (policy L)) (Q_b (policy L)) = Inl ValueError) \<and>
         (train env rnd pol num_episodes Qa_arg Qb_arg discount_factor alpha show_episodes e0 g0
            = Some (Inr L) \<longrightarrow>
          (\<exists>e. double_q_learning env rnd pol num_episodes Qa_arg Qb_arg discount_factor alpha
                  show_episodes e0 g0 = Some (Inl e)))"
proof -
  from merge_keys_missing [OF assms, of "Q_a (policy L)" "[]"]
  have m: "merge_tables (Q_a (policy L)) (Q_b (policy L)) = Inl KeyError \<or>
          merge_tables (Q_a (policy L)) (Q_b (policy L)) = Inl ValueError"
    unfolding merge_tables_def .
  then show ?thesis
    by (auto simp: double_q_learning_def unzip_stats_def)
qed

theorem merge_fails_on_missing_key_witness:
  "5 \<in> set (keys (Q_a (policy unsynced_learner))) \<and>
   5 \<notin> set (keys (Q_b (policy unsynced_learner))) \<and>
   train bandit_env counter_random empty_policy 1 (Some [(5, [0, 0])]) None 1 (1 / 2) True 0 0
     = Some (Inr unsynced_learner) \<and>
   (merge_tables (Q_a (policy unsynced_learner)) (Q_b (policy unsynced_learner)) = Inl KeyError \<or>
    merge_tables (Q_a (policy unsynced_learner)) (Q_b (policy unsynced_learner)) = Inl ValueError) \<and>
   (\<exists>e. double_q_learning bandit_env counter_random empty_policy 1 (Some [(5, [0, 0])]) None
           1 (1 / 2) True 0 0 = Some (Inl e))"
proof -
  have a: "5 \<in> set (keys (Q_a (policy unsynced_learner)))"
    by (simp add: unsynced_learner_def keys_def)
  have b: "5 \<notin> set (keys (Q_b (policy unsynced_learner)))"
    by (simp add: unsynced_learner_def keys_def)
  note th = merge_fails_on_missing_key [OF a b, of bandit_env counter_random empty_policy 1
      "Some [(5, [0, 0])]" None 1 "1 / 2" True 0 0]
  from th train_preseeded_example have
    "\<exists>e. double_q_learning bandit_env counter_random empty_policy 1 (Some [(5, [0, 0])]) None
           1 (1 / 2) True 0 0 = Some (Inl e)"
    by blast
  with a b train_preseeded_example th show ?thesis by blast
qed

end
